theory Spec2Isabelle
  imports Main "HOL-Library.Sublist"
begin

section \<open>Strings\<close>

text \<open>
  A JavaScript string is a sequence of UTF-16 code units. The model uses \<^typ>\<open>string\<close>:
  a \<^typ>\<open>char\<close> stands for one code unit in the range 0..255 (ASCII and Latin-1), so
  \<^const>\<open>length\<close> counts code units as \<open>.length\<close> does. Strings with code units above
  255 are outside the model.
\<close>

definition is_ws :: "char \<Rightarrow> bool" where
  \<comment> \<open>The code units below 256 matched by \<open>\s\<close> and stripped by \<open>trim()\<close>:
      TAB, LF, VT, FF, CR, SPACE and NBSP.\<close>
  "is_ws c \<longleftrightarrow> of_char c \<in> {9, 10, 11, 12, 13, 32, 160 :: nat}"

function collapse_ws :: "string \<Rightarrow> string" where
  \<comment> \<open>\<open>s.replace(/\s+/g, " ")\<close>: every maximal run of whitespace becomes one space.\<close>
  "collapse_ws [] = []"
| "collapse_ws (c # cs) =
     (if is_ws c then CHR '' '' # collapse_ws (dropWhile is_ws cs)
      else c # collapse_ws cs)"
  by pat_completeness auto
termination
  by (relation "measure length") (auto simp: length_dropWhile_le less_Suc_eq_le)

definition trim :: "string \<Rightarrow> string" where
  \<comment> \<open>\<open>s.trim()\<close>\<close>
  "trim s = rev (dropWhile is_ws (rev (dropWhile is_ws s)))"

definition toLowerCase :: "string \<Rightarrow> string" where
  \<comment> \<open>\<open>s.toLowerCase()\<close> on code units below 256: A-Z and the Latin-1 capitals
      (0xC0-0xDE without the multiplication sign 0xD7) move up by 0x20.\<close>
  "toLowerCase s =
     map (\<lambda>c. let n = (of_char c :: nat) in
            if (65 \<le> n \<and> n \<le> 90) \<or> (192 \<le> n \<and> n \<le> 222 \<and> n \<noteq> 215)
            then char_of (n + 32) else c) s"

fun includes_str :: "string \<Rightarrow> string \<Rightarrow> bool" where
  \<comment> \<open>\<open>haystack.includes(needle)\<close>\<close>
  "includes_str [] n = (n = [])"
| "includes_str (c # cs) n = (prefix n (c # cs) \<or> includes_str cs n)"

definition slice :: "string \<Rightarrow> nat \<Rightarrow> nat \<Rightarrow> string" where
  \<comment> \<open>\<open>s.slice(i, j)\<close> for \<open>0 \<le> i\<close>, \<open>0 \<le> j\<close>: empty when \<open>j \<le> i\<close>, cut at the end of \<open>s\<close>.\<close>
  "slice s i j = take (j - i) (drop i s)"

section \<open>Span Matcher (patch agent, \<open>findInContent\<close>)\<close>

definition normalizeWs :: "string \<Rightarrow> string" where
  "normalizeWs s = trim (collapse_ws s)"

function scan_end :: "string \<Rightarrow> string \<Rightarrow> nat \<Rightarrow> nat \<Rightarrow> string option" where
  \<comment> \<open>The inner loop \<open>for (j = ...; j <= haystack.length; j++)\<close> at start offset \<open>i\<close>.\<close>
  "scan_end haystack normalNeedle i j =
     (if j \<le> length haystack then
        (if normalizeWs (slice haystack i j) = normalNeedle then Some (slice haystack i j)
         else scan_end haystack normalNeedle i (j + 1))
      else None)"
  by pat_completeness auto
termination
  by (relation "measure (\<lambda>(h, n, i, j). Suc (length h) - j)") auto

function scan_start :: "string \<Rightarrow> string \<Rightarrow> nat \<Rightarrow> string option" where
  \<comment> \<open>The outer loop \<open>for (i = ...; i < haystack.length; i++)\<close>; the inner loop starts
      at \<open>j = i + normalNeedle.length\<close>.\<close>
  "scan_start haystack normalNeedle i =
     (if i < length haystack then
        (case scan_end haystack normalNeedle i (i + length normalNeedle) of
           Some s \<Rightarrow> Some s
         | None \<Rightarrow> scan_start haystack normalNeedle (i + 1))
      else None)"
  by pat_completeness auto
termination
  by (relation "measure (\<lambda>(h, n, i). length h - i)") auto

declare scan_end.simps [simp del] scan_start.simps [simp del]

definition findInContent :: "string \<Rightarrow> string \<Rightarrow> string option" where
  \<comment> \<open>\<open>None\<close> is the source's \<open>null\<close>.\<close>
  "findInContent haystack needle =
     (if includes_str haystack needle then Some needle
      else
        let normalNeedle = normalizeWs needle;
            normalHaystack = normalizeWs haystack
        in if \<not> includes_str normalHaystack normalNeedle then None
           else scan_start haystack normalNeedle 0)"

section \<open>Prompting (patch agent, \<open>askYesNo\<close>)\<close>

definition askYesNo_answer :: "string \<Rightarrow> bool" where
  \<comment> \<open>What \<open>askYesNo\<close> resolves to for the line the operator typed.\<close>
  "askYesNo_answer answer \<longleftrightarrow> toLowerCase (trim answer) \<noteq> ''n''"

section \<open>Patch agent: data\<close>

record ApprovedFix =
  element :: string
  message :: string
  wcagCriteria :: string
  wcagName :: string
  severity :: string
  currentCode :: string
  suggestedFix :: string
  explanation :: string

record PatchResult =
  fix_of :: ApprovedFix  \<comment> \<open>the field \<open>fix\<close>\<close>
  file_of :: string  \<comment> \<open>the field \<open>file\<close>\<close>
  applied :: bool
  reason :: "string option"

section \<open>The world the patch agent runs in\<close>

text \<open>
  What \<open>fs.readdirSync\<close> and \<open>fs.statSync\<close> see under a directory: a tree of entry
  names, in the order \<open>readdirSync\<close> lists them.
\<close>

datatype node = File | Dir "(string \<times> node) list"

record file_state =
  content :: string
  readable :: bool
  writable :: bool

text \<open>
  What \<open>JSON.parse(fs.readFileSync(reportPath, "utf8"))\<close> gives. \<open>JsonValue fixes\<close> is
  any value other than \<open>null\<close>; \<open>fixes\<close> is its \<open>approvedFixes\<close> array, \<open>None\<close> when
  the property is absent.
\<close>

datatype report_json = JsonNull | JsonValue "ApprovedFix list option"

datatype report_file = Missing | Unparsable | Parsed report_json

datatype error = ENOENT | EACCES | ENOTDIR | SyntaxError | TypeError

record world =
  reports :: "string \<Rightarrow> report_file"
  dirs :: "string \<Rightarrow> node option"
  files :: "string \<Rightarrow> file_state option"
  answers :: "nat \<Rightarrow> string"  \<comment> \<open>the lines the operator types, in order\<close>
  asked :: nat  \<comment> \<open>how many prompts have been answered\<close>

definition readFileSync :: "world \<Rightarrow> string \<Rightarrow> error + string" where
  "readFileSync w p =
     (case files w p of
        None \<Rightarrow> Inl ENOENT
      | Some f \<Rightarrow> if readable f then Inr (content f) else Inl EACCES)"

definition writeFileSync :: "world \<Rightarrow> string \<Rightarrow> string \<Rightarrow> error + world" where
  "writeFileSync w p data =
     (case files w p of
        None \<Rightarrow>
          Inr (w\<lparr>files := (files w)(p \<mapsto> \<lparr>content = data, readable = True, writable = True\<rparr>)\<rparr>)
      | Some f \<Rightarrow>
          if writable f then Inr (w\<lparr>files := (files w)(p \<mapsto> f\<lparr>content := data\<rparr>)\<rparr>)
          else Inl EACCES)"

definition askYesNo :: "world \<Rightarrow> bool \<times> world" where
  "askYesNo w = (askYesNo_answer (answers w (asked w)), w\<lparr>asked := Suc (asked w)\<rparr>)"

section \<open>File discovery (patch agent, \<open>walkDir\<close>)\<close>

definition HTML_EXTENSIONS :: "string list" where
  "HTML_EXTENSIONS = [''.html'', ''.htm'', ''.xhtml'']"

definition SKIP_DIRS :: "string list" where
  "SKIP_DIRS = [''node_modules'', ''.git'', ''dist'', ''build'', ''.next'', ''coverage'']"

fun last_dot :: "string \<Rightarrow> nat option" where
  \<comment> \<open>offset of the last \<open>.\<close>\<close>
  "last_dot [] = None"
| "last_dot (c # cs) =
     (case last_dot cs of
        Some i \<Rightarrow> Some (Suc i)
      | None \<Rightarrow> if c = CHR ''.'' then Some 0 else None)"

definition extname :: "string \<Rightarrow> string" where
  \<comment> \<open>\<open>path.extname\<close> on an entry name (no separator): from the last dot on; empty
      without a dot, when the only dot is the first character, and for \<open>..\<close>.\<close>
  "extname entry =
     (case last_dot entry of
        None \<Rightarrow> []
      | Some i \<Rightarrow> if i = 0 \<or> entry = ''..'' then [] else drop i entry)"

fun split_path :: "string \<Rightarrow> string list" where
  \<comment> \<open>the segments of a path between its \<open>/\<close> separators\<close>
  "split_path [] = [[]]"
| "split_path (c # cs) =
     (if c = CHR ''/'' then [] # split_path cs
      else (case split_path cs of
              s # ss \<Rightarrow> (c # s) # ss
            | [] \<Rightarrow> [[c]]))"

fun norm_segments :: "bool \<Rightarrow> string list \<Rightarrow> string list \<Rightarrow> string list" where
  \<comment> \<open>Node's \<open>normalizeString\<close>, on segments, with \<open>res\<close> the segments kept so far: empty
      segments and \<open>.\<close> are dropped; \<open>..\<close> removes the last kept segment unless there is
      none or it is \<open>..\<close> itself, and is then kept only when \<open>allowAboveRoot\<close>.\<close>
  "norm_segments allowAboveRoot res [] = res"
| "norm_segments allowAboveRoot res (s # ss) =
     (if s = [] \<or> s = ''.'' then norm_segments allowAboveRoot res ss
      else if s = ''..'' then
        (if res \<noteq> [] \<and> last res \<noteq> ''..'' then norm_segments allowAboveRoot (butlast res) ss
         else if allowAboveRoot then norm_segments allowAboveRoot (res @ [''..'']) ss
         else norm_segments allowAboveRoot res ss)
      else norm_segments allowAboveRoot (res @ [s]) ss)"

fun join_segments :: "string list \<Rightarrow> string" where
  "join_segments [] = []"
| "join_segments [s] = s"
| "join_segments (s # t # ss) = s @ ''/'' @ join_segments (t # ss)"

definition path_normalize :: "string \<Rightarrow> string" where
  \<comment> \<open>\<open>path.normalize\<close> (POSIX)\<close>
  "path_normalize path =
     (if path = [] then ''.''
      else
        let isAbsolute = (hd path = CHR ''/'');
            trailingSeparator = (last path = CHR ''/'');
            p = join_segments (norm_segments (\<not> isAbsolute) [] (split_path path))
        in if p = [] then (if isAbsolute then ''/'' else if trailingSeparator then ''./'' else ''.'')
           else (if isAbsolute then ''/'' else []) @ p @ (if trailingSeparator then ''/'' else []))"

definition join :: "string \<Rightarrow> string \<Rightarrow> string" where
  \<comment> \<open>\<open>path.join(dir, entry)\<close> (POSIX): the non-empty arguments joined by \<open>/\<close>, then
      normalised.\<close>
  "join dir entry =
     (let joined = (if dir = [] then entry else if entry = [] then dir else dir @ ''/'' @ entry)
      in if joined = [] then ''.'' else path_normalize joined)"

fun walk_entries :: "string \<Rightarrow> string list \<Rightarrow> (string \<times> node) list \<Rightarrow> string list" where
  \<comment> \<open>the loop over \<open>fs.readdirSync(dir)\<close>\<close>
  "walk_entries dir exts [] = []"
| "walk_entries dir exts ((entry, n) # rest) =
     (if entry \<in> set SKIP_DIRS then walk_entries dir exts rest
      else
        (case n of
           Dir es \<Rightarrow> walk_entries (join dir entry) exts es @ walk_entries dir exts rest
         | File \<Rightarrow>
             if toLowerCase (extname entry) \<in> set exts
             then join dir entry # walk_entries dir exts rest
             else walk_entries dir exts rest))"

definition walkDir :: "world \<Rightarrow> string \<Rightarrow> string list \<Rightarrow> error + string list" where
  "walkDir w dir exts =
     (case dirs w dir of
        None \<Rightarrow> Inr []
      | Some File \<Rightarrow> Inl ENOTDIR
      | Some (Dir es) \<Rightarrow> Inr (walk_entries dir exts es))"

section \<open>\<open>String.prototype.replace\<close> with a string pattern\<close>

fun indexOf :: "string \<Rightarrow> string \<Rightarrow> nat option" where
  \<comment> \<open>offset of the first occurrence\<close>
  "indexOf [] n = (if n = [] then Some 0 else None)"
| "indexOf (c # cs) n =
     (if prefix n (c # cs) then Some 0 else map_option Suc (indexOf cs n))"

fun getSubstitution :: "string \<Rightarrow> string \<Rightarrow> string \<Rightarrow> string \<Rightarrow> string" where
  \<comment> \<open>The replacement text for a string pattern (no capture groups): \<open>$$\<close> is a dollar
      sign, \<open>$&\<close> the matched text, \<open>$`\<close> the text before the match, \<open>$'\<close> the text after
      it; every other character, also a dollar sign before anything else, stands for
      itself.\<close>
  "getSubstitution matched preceding following [] = []"
| "getSubstitution matched preceding following [c] = [c]"
| "getSubstitution matched preceding following (c # d # r) =
     (if c = CHR 0x24 \<and> d = CHR 0x24 then CHR 0x24 # getSubstitution matched preceding following r
      else if c = CHR 0x24 \<and> d = CHR 0x26 then matched @ getSubstitution matched preceding following r
      else if c = CHR 0x24 \<and> d = CHR 0x60 then preceding @ getSubstitution matched preceding following r
      else if c = CHR 0x24 \<and> d = CHR 0x27 then following @ getSubstitution matched preceding following r
      else c # getSubstitution matched preceding following (d # r))"

definition replace_str :: "string \<Rightarrow> string \<Rightarrow> string \<Rightarrow> string" where
  \<comment> \<open>\<open>str.replace(searchValue, replaceValue)\<close>: the first occurrence only.\<close>
  "replace_str str searchValue replaceValue =
     (case indexOf str searchValue of
        None \<Rightarrow> str
      | Some pos \<Rightarrow>
          let preceding = take pos str;
              following = drop (pos + length searchValue) str
          in preceding @ getSubstitution searchValue preceding following replaceValue @ following)"

section \<open>Core patch logic (patch agent, \<open>runPatchAgent\<close> and \<open>main\<close>)\<close>

fun patch_files ::
  "bool \<Rightarrow> ApprovedFix \<Rightarrow> string list \<Rightarrow> world \<Rightarrow> (error + PatchResult option) \<times> world" where
  \<comment> \<open>The loop \<open>for (const filePath of sourceFiles)\<close> for one fix. \<open>None\<close> is
      \<open>matched = false\<close> at the end of the loop; an exception leaves the loop with the
      world as it is then.\<close>
  "patch_files dryRun fx [] w = (Inr None, w)"
| "patch_files dryRun fx (filePath # rest) w =
     (case readFileSync w filePath of
        Inl e \<Rightarrow> (Inl e, w)
      | Inr original \<Rightarrow>
          (case findInContent original (currentCode fx) of
             None \<Rightarrow> patch_files dryRun fx rest w
           | Some found \<Rightarrow>
               if found = [] then patch_files dryRun fx rest w
               else
                 let patched = replace_str original found (suggestedFix fx) in
                 if dryRun then
                   (Inr (Some \<lparr>fix_of = fx, file_of = filePath, applied = False,
                               reason = Some ''dry-run''\<rparr>), w)
                 else
                   (case askYesNo w of
                      (confirm, w1) \<Rightarrow>
                        if confirm then
                          (case writeFileSync w1 filePath patched of
                             Inl e \<Rightarrow> (Inl e, w1)
                           | Inr w2 \<Rightarrow>
                               (Inr (Some \<lparr>fix_of = fx, file_of = filePath, applied = True,
                                           reason = None\<rparr>), w2))
                        else
                          (Inr (Some \<lparr>fix_of = fx, file_of = filePath, applied = False,
                                      reason = Some ''skipped by user''\<rparr>), w1))))"

definition patch_fix ::
  "bool \<Rightarrow> ApprovedFix \<Rightarrow> string list \<Rightarrow> world \<Rightarrow> (error + PatchResult) \<times> world" where
  \<comment> \<open>The body of the loop over \<open>approvedFixes\<close>: the result pushed for this fix.\<close>
  "patch_fix dryRun fx sourceFiles w =
     (case patch_files dryRun fx sourceFiles w of
        (Inl e, w') \<Rightarrow> (Inl e, w')
      | (Inr (Some r), w') \<Rightarrow> (Inr r, w')
      | (Inr None, w') \<Rightarrow>
          (Inr \<lparr>fix_of = fx, file_of = [], applied = False,
                reason = Some ''currentCode not found in any file''\<rparr>, w'))"

fun patch_loop ::
  "bool \<Rightarrow> string list \<Rightarrow> ApprovedFix list \<Rightarrow> PatchResult list \<Rightarrow> world
     \<Rightarrow> (error + PatchResult list) \<times> world" where
  \<comment> \<open>The loop over \<open>approvedFixes\<close>, with \<open>results\<close> as accumulated so far.\<close>
  "patch_loop dryRun sourceFiles [] results w = (Inr results, w)"
| "patch_loop dryRun sourceFiles (fx # fixes) results w =
     (case patch_fix dryRun fx sourceFiles w of
        (Inl e, w') \<Rightarrow> (Inl e, w')
      | (Inr r, w') \<Rightarrow> patch_loop dryRun sourceFiles fixes (results @ [r]) w')"

text \<open>
  How a call ends: \<open>process.exit(code)\<close> inside it, an exception leaving it, or a normal
  return (with the local \<open>results\<close>, which the source only prints a summary of).
\<close>

datatype outcome = Exit nat | Threw error | Returned "PatchResult list"

definition runPatchAgent :: "string \<Rightarrow> string \<Rightarrow> bool \<Rightarrow> world \<Rightarrow> outcome \<times> world" where
  "runPatchAgent reportPath sourceDir dryRun w =
     (case reports w reportPath of
        Missing \<Rightarrow> (Exit 1, w)
      | Unparsable \<Rightarrow> (Threw SyntaxError, w)
      | Parsed JsonNull \<Rightarrow> (Threw TypeError, w)
      | Parsed (JsonValue fixes) \<Rightarrow>
          let approvedFixes = (case fixes of None \<Rightarrow> [] | Some fs \<Rightarrow> fs) in
          if approvedFixes = [] then (Exit 0, w)
          else
            (case walkDir w sourceDir HTML_EXTENSIONS of
               Inl e \<Rightarrow> (Threw e, w)
             | Inr sourceFiles \<Rightarrow>
                 if sourceFiles = [] then (Exit 0, w)
                 else
                   (case patch_loop dryRun sourceFiles approvedFixes [] w of
                      (Inl e, w') \<Rightarrow> (Threw e, w')
                    | (Inr results, w') \<Rightarrow> (Returned results, w'))))"

definition main :: "string list \<Rightarrow> world \<Rightarrow> nat \<times> world" where
  \<comment> \<open>The exit code of the process for \<open>process.argv = argv\<close>, and the world it leaves.\<close>
  "main argv w =
     (let args = filter (\<lambda>a. \<not> prefix ''--'' a) (drop 2 argv);
          flags = filter (\<lambda>a. prefix ''--'' a) (drop 2 argv);
          dryRun = (''--dry-run'' \<in> set flags)
      in if length args < 2 then (1, w)
         else
           (case runPatchAgent (args ! 0) (args ! 1) dryRun w of
              (Exit code, w') \<Rightarrow> (code, w')
            | (Returned results, w') \<Rightarrow> (0, w')
            | (Threw e, w') \<Rightarrow> (1, w')))"

text \<open>
  For one fix and one candidate file, what an iteration of the loop over \<open>sourceFiles\<close>
  finds: \<open>match_in\<close> when the file is read and \<open>findInContent\<close> gives a span that the
  test \<open>if (!found) continue\<close> lets through (the empty string does not pass it);
  \<open>no_match_in\<close> when the file is read and the loop goes on to the next file.
\<close>

definition match_in :: "world \<Rightarrow> ApprovedFix \<Rightarrow> string \<Rightarrow> bool" where
  "match_in w fx p =
     (case readFileSync w p of
        Inl e \<Rightarrow> False
      | Inr original \<Rightarrow>
          (case findInContent original (currentCode fx) of
             None \<Rightarrow> False
           | Some found \<Rightarrow> found \<noteq> []))"

definition no_match_in :: "world \<Rightarrow> ApprovedFix \<Rightarrow> string \<Rightarrow> bool" where
  "no_match_in w fx p =
     (case readFileSync w p of
        Inl e \<Rightarrow> False
      | Inr original \<Rightarrow>
          (case findInContent original (currentCode fx) of
             None \<Rightarrow> True
           | Some found \<Rightarrow> found = []))"

text \<open>
  What a dry run records for one fix, given the files \<open>walkDir\<close> listed: the result for
  the first file with a match, every file before it having been read without one; or the
  not-found result when every file was read without a match.
\<close>

abbreviation dry_run_recorded :: "world \<Rightarrow> string list \<Rightarrow> ApprovedFix \<Rightarrow> PatchResult \<Rightarrow> bool" where
  "dry_run_recorded w sourceFiles fx r \<equiv>
     (\<exists>pre p post. sourceFiles = pre @ p # post \<and> (\<forall>q\<in>set pre. no_match_in w fx q)
         \<and> match_in w fx p
         \<and> r = \<lparr>fix_of = fx, file_of = p, applied = False, reason = Some ''dry-run''\<rparr>)
     \<or> ((\<forall>q\<in>set sourceFiles. no_match_in w fx q)
         \<and> r = \<lparr>fix_of = fx, file_of = [], applied = False,
                 reason = Some ''currentCode not found in any file''\<rparr>)"

section \<open>Fix Validator (\<open>validateFix\<close>)\<close>

text \<open>
  The audit script imports \<open>validateFix\<close> from the \<open>mastra\<close> module and calls it once per
  issue, but the module's source does not define it. The definitions of this section
  follow section 4.2 of the specification instead.
\<close>

datatype vmethod = DomInjection | Skipped

record ValidationResult =
  method_of :: vmethod  \<comment> \<open>the field \<open>method\<close>\<close>
  passed :: bool
  reason_of :: "string option"  \<comment> \<open>the field \<open>reason\<close>\<close>

text \<open>The live document: the markup of each element, by element reference.\<close>

type_synonym document = "nat \<Rightarrow> string"

text \<open>
  An exception during a step that mutates the document. The mutation is atomic, so the
  exception is raised either before it took effect or after.
\<close>

datatype fault = ThrowsBefore string | ThrowsAfter string

text \<open>
  The capabilities \<open>validateFix\<close> consumes, as they behave during one call: element
  resolution by selector; the accessibility checker scoped to an element, which gives the
  exception text or the surviving violations that match the issue's rule (each with its
  identifier or description, when it has one); and the exceptions, if any, raised while
  injecting and while reverting.
\<close>

record page =
  resolve :: "string \<Rightarrow> nat option"
  runChecks :: "document \<Rightarrow> nat \<Rightarrow> string + string option list"
  inject_fault :: "fault option"
  revert_fault :: "fault option"

definition mutate :: "fault option \<Rightarrow> document \<Rightarrow> nat \<Rightarrow> string \<Rightarrow> string option \<times> document" where
  \<comment> \<open>Modelled from the spec: the single atomic mutation that replaces an element's entire
      markup (the body of \<open>validateFix\<close> is missing); the exception text, if one was
      raised, and the document after the step.\<close>
  "mutate flt d el markup =
     (case flt of
        None \<Rightarrow> (None, d(el := markup))
      | Some (ThrowsBefore msg) \<Rightarrow> (Some msg, d)
      | Some (ThrowsAfter msg) \<Rightarrow> (Some msg, d(el := markup)))"

definition on_error ::
  "fault option \<Rightarrow> string \<Rightarrow> nat \<Rightarrow> string \<Rightarrow> document \<Rightarrow> ValidationResult \<times> document" where
  \<comment> \<open>Modelled from the spec: the state \<open>ERROR\<close> of \<open>validateFix\<close> (its body is missing):
      the exception is caught, the revert is attempted best-effort on the same element
      reference, and the issue is downgraded to \<open>MANUAL\<close> with the exception text as
      reason. The attempt is the same mutation as the revert of \<open>REVERTING\<close>, with the
      behaviour \<open>flt\<close> the page gives it; an exception it raises is dropped.\<close>
  "on_error flt msg el originalCode d =
     (\<lparr>method_of = DomInjection, passed = False, reason_of = Some msg\<rparr>,
      snd (mutate flt d el originalCode))"

definition validateFix ::
  "page \<Rightarrow> string \<Rightarrow> string \<Rightarrow> string \<Rightarrow> document \<Rightarrow> ValidationResult \<times> document" where
  \<comment> \<open>Modelled from the spec: \<open>validateFix(selector, proposedCode, originalCode)\<close>, whose
      body is missing from the \<open>mastra\<close> module. \<open>IDLE\<close>: resolve the selector;
      \<open>INJECTING\<close>: replace the element's markup by \<open>proposedCode\<close>; \<open>CHECKING\<close>: run the
      checker; \<open>REVERTING\<close>: restore \<open>originalCode\<close> onto the same element; then
      \<open>VALIDATED\<close> or \<open>MANUAL\<close>. An exception in any of the three middle states goes to
      \<open>ERROR\<close>.\<close>
  "validateFix pg selector proposedCode originalCode d =
     (case resolve pg selector of
        None \<Rightarrow>
          (\<lparr>method_of = Skipped, passed = False, reason_of = Some ''element not found''\<rparr>, d)
      | Some el \<Rightarrow>
          (case mutate (inject_fault pg) d el proposedCode of
             (Some msg, d1) \<Rightarrow> on_error (revert_fault pg) msg el originalCode d1
           | (None, d1) \<Rightarrow>
               (case runChecks pg d1 el of
                  Inl msg \<Rightarrow> on_error (revert_fault pg) msg el originalCode d1
                | Inr violations \<Rightarrow>
                    (case mutate (revert_fault pg) d1 el originalCode of
                       (Some msg, d2) \<Rightarrow> on_error (revert_fault pg) msg el originalCode d2
                     | (None, d2) \<Rightarrow>
                         (case violations of
                            [] \<Rightarrow>
                              (\<lparr>method_of = DomInjection, passed = True, reason_of = None\<rparr>, d2)
                          | v # _ \<Rightarrow>
                              (\<lparr>method_of = DomInjection, passed = False,
                                reason_of =
                                  Some (case v of
                                          Some detail \<Rightarrow> detail
                                        | None \<Rightarrow> ''still reports violations'')\<rparr>, d2))))))"

section \<open>Example inputs\<close>

definition html_file :: "string \<Rightarrow> file_state" where
  "html_file c = \<lparr>content = c, readable = True, writable = True\<rparr>"

definition readonly_file :: "string \<Rightarrow> file_state" where
  "readonly_file c = \<lparr>content = c, readable = True, writable = False\<rparr>"

definition alt_fix :: "string \<Rightarrow> string \<Rightarrow> ApprovedFix" where
  "alt_fix cur sug =
     \<lparr>element = ''img'', message = ''Image has no text alternative'', wcagCriteria = ''1.1.1'',
      wcagName = ''Non-text Content'', severity = ''critical'', currentCode = cur,
      suggestedFix = sug, explanation = ''Add an alt attribute''\<rparr>"

definition site_world :: "report_file \<Rightarrow> file_state \<Rightarrow> file_state \<Rightarrow> string \<Rightarrow> world" where
  \<comment> \<open>A report at \<open>report.json\<close> and a directory \<open>site\<close> with \<open>index.html\<close> and
      \<open>about.html\<close>; the operator types \<open>ans\<close> at every prompt.\<close>
  "site_world rep f1 f2 ans =
     \<lparr>reports = (\<lambda>p. if p = ''report.json'' then rep else Missing),
      dirs = (\<lambda>p. if p = ''site''
                  then Some (Dir [(''index.html'', File), (''about.html'', File)]) else None),
      files = (\<lambda>p. if p = ''site/index.html'' then Some f1
                   else if p = ''site/about.html'' then Some f2 else None),
      answers = (\<lambda>k. ans),
      asked = 0\<rparr>"

definition demo_page :: "fault option \<Rightarrow> fault option \<Rightarrow> page" where
  \<comment> \<open>Only \<open>#logo\<close> resolves, to element 0; the checker reports one violation unless the
      markup of the element has an \<open>alt\<close> attribute.\<close>
  "demo_page fi fr =
     \<lparr>resolve = (\<lambda>sel. if sel = ''#logo'' then Some 0 else None),
      runChecks = (\<lambda>d el. if includes_str (d el) ''alt='' then Inr []
                          else Inr [Some ''image-alt'']),
      inject_fault = fi,
      revert_fault = fr\<rparr>"

definition demo_document :: document where
  "demo_document = (\<lambda>el. if el = 0 then ''<img src=a.png>'' else ''<p>text</p>'')"

section \<open>Properties of the prompt\<close>





lemma patch_files_decline:
  assumes "files w p = Some f" "readable f"
    and "findInContent (content f) (currentCode fx) = Some found" "found \<noteq> []"
    and "\<not> askYesNo_answer (answers w (asked w))"
  shows "patch_files False fx (p # rest) w =
     (Inr (Some \<lparr>fix_of = fx, file_of = p, applied = False, reason = Some ''skipped by user''\<rparr>),
      w\<lparr>asked := Suc (asked w)\<rparr>)"
  using assms by (simp add: readFileSync_def writeFileSync_def askYesNo_def)



section \<open>Properties of the Fix Validator\<close>










text \<open>
  C9. When the selector does not resolve, \<open>validateFix\<close> returns the result
  \<open>{method: "skipped", passed: false, reason: "element not found"}\<close> (it returns a result:
  no exception leaves it) and the live document is the one it was given.
\<close>

theorem validateFix_unresolved_selector:
  assumes "resolve pg selector = None"
  shows "validateFix pg selector proposedCode originalCode d =
           (\<lparr>method_of = Skipped, passed = False, reason_of = Some ''element not found''\<rparr>, d)"
  using assms by (simp add: validateFix_def)

theorem validateFix_unresolved_selector_witness:
  "resolve (demo_page None None) ''#missing'' = None
   \<and> validateFix (demo_page None None) ''#missing'' ''<img src=a.png alt=Logo>''
        ''<img src=a.png>'' demo_document =
       (\<lparr>method_of = Skipped, passed = False, reason_of = Some ''element not found''\<rparr>,
        demo_document)"
proof -
  have h: "resolve (demo_page None None) ''#missing'' = None"
    by (simp add: demo_page_def)
  show ?thesis
    using h validateFix_unresolved_selector [OF h] by simp
qed

section \<open>Properties of the patch loop\<close>

lemma patch_files_skip:
  "\<forall>q\<in>set pre. no_match_in w fx q \<Longrightarrow> patch_files dryRun fx (pre @ rest) w = patch_files dryRun fx rest w"
  by (induction pre) (auto simp: no_match_in_def split: sum.splits option.splits)

lemma patch_files_stop:
  "match_in w fx p \<Longrightarrow> patch_files dryRun fx (p # post) w = patch_files dryRun fx [p] w"
  by (auto simp: match_in_def split: sum.splits option.splits)

lemma writeFileSync_files:
  "writeFileSync w p data = Inr w' \<Longrightarrow> q \<noteq> p \<Longrightarrow> files w' q = files w q"
  by (auto simp: writeFileSync_def split: option.splits if_splits)

lemma patch_files_frame:
  "\<exists>p. \<forall>q. q \<noteq> p \<longrightarrow> files (snd (patch_files dryRun fx fs w)) q = files w q"
proof (induction fs)
  case Nil
  then show ?case by simp
next
  case (Cons a fs)
  show ?case
  proof (cases "no_match_in w fx a")
    case True
    then have "patch_files dryRun fx (a # fs) w = patch_files dryRun fx fs w"
      using patch_files_skip [of "[a]" w fx dryRun fs] by simp
    with Cons show ?thesis by simp
  next
    case False
    have "\<forall>q. q \<noteq> a \<longrightarrow> files (snd (patch_files dryRun fx (a # fs) w)) q = files w q"
      using False
      by (auto simp: no_match_in_def askYesNo_def Let_def writeFileSync_def split: sum.splits option.splits prod.splits if_splits)
    then show ?thesis by blast
  qed
qed

lemma patch_files_match_frame:
  "match_in w fx p \<Longrightarrow> q \<noteq> p \<Longrightarrow> files (snd (patch_files dryRun fx [p] w)) q = files w q"
  by (auto simp: match_in_def askYesNo_def Let_def writeFileSync_def split: sum.splits option.splits prod.splits if_splits)

lemma patch_files_dry:
  "patch_files True fx fs w = (r, w') \<Longrightarrow>
     w' = w \<and> (\<forall>pr. r = Inr (Some pr) \<longrightarrow> \<not> applied pr)"
  by (induction fs) (auto simp: Let_def split: sum.splits option.splits if_splits)

lemma patch_fix_dry:
  "patch_fix True fx fs w = (r, w') \<Longrightarrow> w' = w \<and> (\<forall>pr. r = Inr pr \<longrightarrow> \<not> applied pr)"
  using patch_files_dry [of fx fs w]
  by (auto simp: patch_fix_def split: prod.splits sum.splits option.splits)

lemma patch_loop_dry:
  "patch_loop True fs fxs acc w = (r, w') \<Longrightarrow> \<forall>pr\<in>set acc. \<not> applied pr \<Longrightarrow>
     w' = w \<and> (\<forall>results. r = Inr results \<longrightarrow> (\<forall>pr\<in>set results. \<not> applied pr))"
proof (induction fxs arbitrary: acc)
  case Nil
  then show ?case by auto
next
  case (Cons fx fxs)
  obtain r1 w1 where s: "patch_fix True fx fs w = (r1, w1)"
    by (cases "patch_fix True fx fs w")
  from patch_fix_dry [OF s] have w1: "w1 = w" and a1: "\<forall>pr. r1 = Inr pr \<longrightarrow> \<not> applied pr"
    by auto
  show ?case
  proof (cases r1)
    case (Inl e)
    with Cons.prems s w1 show ?thesis by auto
  next
    case (Inr pr)
    with Cons.prems s w1 have "patch_loop True fs fxs (acc @ [pr]) w = (r, w')"
      by simp
    moreover have "\<forall>x\<in>set (acc @ [pr]). \<not> applied x"
      using Cons.prems(2) a1 Inr by auto
    ultimately show ?thesis
      using Cons.IH by blast
  qed
qed

lemma runPatchAgent_dry:
  "snd (runPatchAgent reportPath sourceDir True w) = w
   \<and> (\<forall>results. fst (runPatchAgent reportPath sourceDir True w) = Returned results
        \<longrightarrow> (\<forall>pr\<in>set results. \<not> applied pr))"
proof -
  have "\<And>fs fxs r w'. patch_loop True fs fxs [] w = (r, w') \<Longrightarrow>
     w' = w \<and> (\<forall>results. r = Inr results \<longrightarrow> (\<forall>pr\<in>set results. \<not> applied pr))"
    using patch_loop_dry [where acc = "[]"] by simp
  then show ?thesis
    unfolding runPatchAgent_def
    by (auto simp: Let_def split: report_file.splits report_json.splits sum.splits prod.splits option.splits)
qed

lemma patch_fix_dry_match:
  assumes "\<forall>q\<in>set pre. no_match_in w fx q" "match_in w fx p"
  shows "patch_fix True fx (pre @ p # post) w =
      (Inr \<lparr>fix_of = fx, file_of = p, applied = False, reason = Some ''dry-run''\<rparr>, w)"
proof -
  have "patch_files True fx (pre @ p # post) w = patch_files True fx [p] w"
    using patch_files_skip [OF assms(1)] patch_files_stop [OF assms(2)] by simp
  also have "\<dots> = (Inr (Some \<lparr>fix_of = fx, file_of = p, applied = False, reason = Some ''dry-run''\<rparr>), w)"
    using assms(2) by (auto simp: match_in_def split: sum.splits option.splits)
  finally show ?thesis by (simp add: patch_fix_def)
qed

lemma main_dry:
  "''--dry-run'' \<in> set (drop 2 argv) \<Longrightarrow> snd (main argv w) = w"
proof -
  assume a: "''--dry-run'' \<in> set (drop 2 argv)"
  have d: "''--dry-run'' \<in> set (filter (\<lambda>a. prefix ''--'' a) (drop 2 argv))"
    using a by simp
  show ?thesis
    unfolding main_def Let_def using d runPatchAgent_dry [of _ _ w]
    by (auto split: prod.splits outcome.splits) (metis snd_conv)+
qed

lemma snd_patch_fix: "snd (patch_fix dryRun fx fs w) = snd (patch_files dryRun fx fs w)"
  by (simp add: patch_fix_def split: prod.splits sum.splits option.splits)

lemma patch_fix_first_match:
  assumes "\<forall>q\<in>set pre. no_match_in w fx q" "match_in w fx p"
  shows "patch_fix dryRun fx (pre @ p # post) w = patch_fix dryRun fx [p] w"
proof -
  have "patch_files dryRun fx (pre @ p # post) w = patch_files dryRun fx [p] w"
    using patch_files_skip [OF assms(1)] patch_files_stop [OF assms(2)] by simp
  then show ?thesis by (simp add: patch_fix_def)
qed

text \<open>
  C5. Handling one approved fix changes the content of at most one file. When the files
  enumerated before \<open>p\<close> are read without a match and \<open>p\<close> has one, the outcome is the one
  for the file \<open>p\<close> alone, whatever files are enumerated after \<open>p\<close> (they are not read),
  and every file other than \<open>p\<close> keeps its content.
\<close>

theorem patch_fix_writes_first_match_only:
  "(\<exists>p. \<forall>q. q \<noteq> p \<longrightarrow> files (snd (patch_fix dryRun fx sourceFiles w)) q = files w q)
   \<and> ((\<forall>q\<in>set pre. no_match_in w fx q) \<and> match_in w fx p \<longrightarrow>
        patch_fix dryRun fx (pre @ p # post) w = patch_fix dryRun fx [p] w
        \<and> (\<forall>q. q \<noteq> p \<longrightarrow> files (snd (patch_fix dryRun fx (pre @ p # post) w)) q = files w q))"
proof -
  have 1: "\<exists>p. \<forall>q. q \<noteq> p \<longrightarrow> files (snd (patch_fix dryRun fx sourceFiles w)) q = files w q"
    using patch_files_frame [of dryRun fx sourceFiles w] by (simp add: snd_patch_fix)
  have 2: "patch_fix dryRun fx (pre @ p # post) w = patch_fix dryRun fx [p] w
           \<and> (\<forall>q. q \<noteq> p \<longrightarrow> files (snd (patch_fix dryRun fx (pre @ p # post) w)) q = files w q)"
    if a: "\<forall>q\<in>set pre. no_match_in w fx q" and b: "match_in w fx p"
  proof -
    have e: "patch_fix dryRun fx (pre @ p # post) w = patch_fix dryRun fx [p] w"
      by (rule patch_fix_first_match [OF a b])
    have "\<forall>q. q \<noteq> p \<longrightarrow> files (snd (patch_fix dryRun fx [p] w)) q = files w q"
      using patch_files_match_frame [OF b] by (simp add: snd_patch_fix)
    with e show ?thesis by simp
  qed
  show ?thesis
    using 1 2 by blast
qed

theorem patch_fix_writes_first_match_only_witness:
  "match_in (site_world Missing (html_file ''<p><img src=a.png></p>'')
                (html_file ''<img src=a.png>'') ''y'')
      (alt_fix ''<img src=a.png>'' ''<img src=a.png alt=Logo>'') ''site/index.html''
   \<and> files (snd (patch_fix False (alt_fix ''<img src=a.png>'' ''<img src=a.png alt=Logo>'')
                  ([] @ ''site/index.html'' # [''site/about.html''])
                  (site_world Missing (html_file ''<p><img src=a.png></p>'')
                     (html_file ''<img src=a.png>'') ''y''))) ''site/about.html''
       = Some (html_file ''<img src=a.png>'')"
proof -
  let ?w = "site_world Missing (html_file ''<p><img src=a.png></p>'') (html_file ''<img src=a.png>'') ''y''"
  let ?fx = "alt_fix ''<img src=a.png>'' ''<img src=a.png alt=Logo>''"
  have h1: "\<forall>q\<in>set ([] :: string list). no_match_in ?w ?fx q"
    by simp
  have h2: "match_in ?w ?fx ''site/index.html''"
    by code_simp
  have h3: "''site/about.html'' \<noteq> ''site/index.html''"
    by simp
  note T = patch_fix_writes_first_match_only
      [of False ?fx "[]" ?w "[]" "''site/index.html''" "[''site/about.html'']"]
  have A: "\<forall>q. q \<noteq> ''site/index.html'' \<longrightarrow>
          files (snd (patch_fix False ?fx ([] @ ''site/index.html'' # [''site/about.html'']) ?w)) q
          = files ?w q"
    by (rule conjunct2 [OF mp [OF conjunct2 [OF T] conjI [OF h1 h2]]])
  have "files (snd (patch_fix False ?fx ([] @ ''site/index.html'' # [''site/about.html'']) ?w))
          ''site/about.html'' = files ?w ''site/about.html''"
    by (rule mp [OF spec [OF A] h3])
  also have "files ?w ''site/about.html'' = Some (html_file ''<img src=a.png>'')"
    by (simp add: site_world_def)
  finally show ?thesis
    using h2 by (rule conjI [rotated])
qed

lemma match_or_no_match:
  "readFileSync w p = Inr original \<Longrightarrow> match_in w fx p \<or> no_match_in w fx p"
  by (auto simp: match_in_def no_match_in_def split: option.splits)

lemma patch_files_dry_result:
  "patch_files True fx fs w = (Inr ro, w') \<Longrightarrow>
     (case ro of
        Some r \<Rightarrow>
          (\<exists>pre p post. fs = pre @ p # post \<and> (\<forall>q\<in>set pre. no_match_in w fx q)
             \<and> match_in w fx p
             \<and> r = \<lparr>fix_of = fx, file_of = p, applied = False, reason = Some ''dry-run''\<rparr>)
      | None \<Rightarrow> (\<forall>q\<in>set fs. no_match_in w fx q))"
proof (induction fs)
  case Nil
  then show ?case by auto
next
  case (Cons a fs)
  from Cons.prems obtain original where rd: "readFileSync w a = Inr original"
    by (cases "readFileSync w a") auto
  from match_or_no_match [OF rd] show ?case
  proof
    assume m: "match_in w fx a"
    then have "patch_files True fx (a # fs) w =
        (Inr (Some \<lparr>fix_of = fx, file_of = a, applied = False, reason = Some ''dry-run''\<rparr>), w)"
      by (auto simp: match_in_def split: sum.splits option.splits)
    with Cons.prems have ro: "ro = Some \<lparr>fix_of = fx, file_of = a, applied = False, reason = Some ''dry-run''\<rparr>"
      by simp
    have "a # fs = [] @ a # fs \<and> (\<forall>q\<in>set ([]::string list). no_match_in w fx q) \<and> match_in w fx a"
      using m by simp
    then show ?thesis unfolding ro by (simp only: option.case) blast
  next
    assume n: "no_match_in w fx a"
    then have "patch_files True fx (a # fs) w = patch_files True fx fs w"
      using patch_files_skip [of "[a]" w fx True fs] by simp
    with Cons.prems have rec: "patch_files True fx fs w = (Inr ro, w')" by simp
    show ?thesis
    proof (cases ro)
      case None
      with Cons.IH [OF rec] n show ?thesis by simp
    next
      case (Some r)
      with Cons.IH [OF rec] obtain pre p post where
        e: "fs = pre @ p # post" "\<forall>q\<in>set pre. no_match_in w fx q" "match_in w fx p"
           "r = \<lparr>fix_of = fx, file_of = p, applied = False, reason = Some ''dry-run''\<rparr>"
        by auto
      have "a # fs = (a # pre) @ p # post \<and> (\<forall>q\<in>set (a # pre). no_match_in w fx q)"
        using e(1,2) n by simp
      with e(3,4) show ?thesis unfolding Some by (simp only: option.case) blast
    qed
  qed
qed

lemma patch_fix_dry_result:
  assumes "patch_fix True fx fs w = (Inr r, w')"
  shows "dry_run_recorded w fs fx r"
proof -
  obtain x w1 where pf: "patch_files True fx fs w = (x, w1)"
    by (cases "patch_files True fx fs w")
  with assms obtain ro where x: "x = Inr ro"
    by (cases x) (auto simp: patch_fix_def)
  from patch_files_dry_result [OF pf [unfolded x]] assms pf x show ?thesis
    by (cases ro) (auto simp: patch_fix_def)
qed

lemma patch_loop_dry_results:
  "patch_loop True fs fxs acc w = (Inr results, w') \<Longrightarrow>
     \<exists>new. results = acc @ new \<and> list_all2 (dry_run_recorded w fs) fxs new"
proof (induction fxs arbitrary: acc)
  case Nil
  then show ?case by simp
next
  case (Cons fx fxs)
  obtain r1 w1 where s: "patch_fix True fx fs w = (r1, w1)"
    by (cases "patch_fix True fx fs w")
  from patch_fix_dry [OF s] have w1: "w1 = w" by simp
  from Cons.prems s obtain r where r1: "r1 = Inr r"
    by (cases r1) auto
  from Cons.prems s w1 r1 have "patch_loop True fs fxs (acc @ [r]) w = (Inr results, w')"
    by simp
  from Cons.IH [OF this] obtain new where
    new: "results = (acc @ [r]) @ new" "list_all2 (dry_run_recorded w fs) fxs new" by blast
  have "dry_run_recorded w fs fx r"
    by (rule patch_fix_dry_result [OF s [unfolded r1]])
  with new have "results = acc @ (r # new) \<and> list_all2 (dry_run_recorded w fs) (fx # fxs) (r # new)"
    by simp
  then show ?case by blast
qed

lemma runPatchAgent_dry_results:
  assumes "fst (runPatchAgent reportPath sourceDir True w) = Returned results"
  shows "\<exists>fxs sourceFiles. reports w reportPath = Parsed (JsonValue (Some fxs))
           \<and> walkDir w sourceDir HTML_EXTENSIONS = Inr sourceFiles
           \<and> list_all2 (dry_run_recorded w sourceFiles) fxs results"
proof -
  from assms obtain fo where p: "reports w reportPath = Parsed (JsonValue fo)"
    by (auto simp: runPatchAgent_def split: report_file.splits report_json.splits)
  with assms obtain fxs where fo: "fo = Some fxs" "fxs \<noteq> []"
    by (cases fo) (auto simp: runPatchAgent_def split: if_splits)
  with assms p obtain sf where sf: "walkDir w sourceDir HTML_EXTENSIONS = Inr sf" "sf \<noteq> []"
    by (cases "walkDir w sourceDir HTML_EXTENSIONS")
       (auto simp: runPatchAgent_def split: if_splits)
  obtain x w1 where l: "patch_loop True sf fxs [] w = (x, w1)"
    by (cases "patch_loop True sf fxs [] w")
  with assms p fo sf have "x = Inr results"
    by (cases x) (auto simp: runPatchAgent_def)
  with l have "patch_loop True sf fxs [] w = (Inr results, w1)" by simp
  from patch_loop_dry_results [OF this] have "list_all2 (dry_run_recorded w sf) fxs results"
    by simp
  with p fo(1) sf(1) show ?thesis by blast
qed

text \<open>
  C6. A dry run leaves the world as it found it, for every report and every source tree
  and however the run ends: no file is written, created or modified. This holds for
  \<open>runPatchAgent\<close> called with \<open>dryRun = true\<close> and for \<open>main\<close> when \<open>--dry-run\<close> is among
  the arguments. The results of a completed dry run are, fix by fix in the order of the
  report's \<open>approvedFixes\<close>, one result per fix: for a fix with a match, the result for
  the first file that matches, with \<open>applied = false\<close> and reason \<open>dry-run\<close>; for a fix
  without one, the not-found result. None of them is marked applied.
\<close>

theorem dry_run_never_writes:
  "snd (runPatchAgent reportPath sourceDir True w) = w
   \<and> (''--dry-run'' \<in> set (drop 2 argv) \<longrightarrow> snd (main argv w) = w)
   \<and> (\<forall>results. fst (runPatchAgent reportPath sourceDir True w) = Returned results
         \<longrightarrow> (\<forall>pr\<in>set results. \<not> applied pr))
   \<and> ((\<forall>q\<in>set pre. no_match_in w fx q) \<and> match_in w fx p \<longrightarrow>
        patch_fix True fx (pre @ p # post) w =
          (Inr \<lparr>fix_of = fx, file_of = p, applied = False, reason = Some ''dry-run''\<rparr>, w))
   \<and> (\<forall>results. fst (runPatchAgent reportPath sourceDir True w) = Returned results
         \<longrightarrow> (\<exists>fxs sourceFiles.
                reports w reportPath = Parsed (JsonValue (Some fxs))
                \<and> walkDir w sourceDir HTML_EXTENSIONS = Inr sourceFiles
                \<and> list_all2 (dry_run_recorded w sourceFiles) fxs results))"
proof -
  have 1: "snd (runPatchAgent reportPath sourceDir True w) = w"
    using runPatchAgent_dry [of reportPath sourceDir w] by (rule conjunct1)
  have 2: "''--dry-run'' \<in> set (drop 2 argv) \<longrightarrow> snd (main argv w) = w"
    using main_dry [of argv w] by (rule impI)
  have 3: "\<forall>results. fst (runPatchAgent reportPath sourceDir True w) = Returned results
         \<longrightarrow> (\<forall>pr\<in>set results. \<not> applied pr)"
    using runPatchAgent_dry [of reportPath sourceDir w] by (rule conjunct2)
  have 4: "(\<forall>q\<in>set pre. no_match_in w fx q) \<and> match_in w fx p \<longrightarrow>
        patch_fix True fx (pre @ p # post) w =
          (Inr \<lparr>fix_of = fx, file_of = p, applied = False, reason = Some ''dry-run''\<rparr>, w)"
    using patch_fix_dry_match [of pre w fx p post] by blast
  have 5: "\<forall>results. fst (runPatchAgent reportPath sourceDir True w) = Returned results
         \<longrightarrow> (\<exists>fxs sourceFiles.
                reports w reportPath = Parsed (JsonValue (Some fxs))
                \<and> walkDir w sourceDir HTML_EXTENSIONS = Inr sourceFiles
                \<and> list_all2 (dry_run_recorded w sourceFiles) fxs results)"
    by (intro allI impI) (rule runPatchAgent_dry_results)
  show ?thesis
    by (rule conjI [OF 1 conjI [OF 2 conjI [OF 3 conjI [OF 4 5]]]])
qed

theorem dry_run_never_writes_witness:
  "''--dry-run'' \<in> set (drop 2 [''node'', ''patch.ts'', ''report.json'', ''site'', ''--dry-run''])
   \<and> snd (main [''node'', ''patch.ts'', ''report.json'', ''site'', ''--dry-run'']
        (site_world (Parsed (JsonValue (Some [alt_fix ''<img src=a.png>'' ''<img src=a.png alt=Logo>''])))
           (html_file ''<p>Home</p>'') (html_file ''<p><img  src=a.png></p>'') ''y''))
      = site_world (Parsed (JsonValue (Some [alt_fix ''<img src=a.png>'' ''<img src=a.png alt=Logo>''])))
           (html_file ''<p>Home</p>'') (html_file ''<p><img  src=a.png></p>'') ''y''
   \<and> patch_fix True (alt_fix ''<img src=a.png>'' ''<img src=a.png alt=Logo>'')
        ([''site/index.html''] @ ''site/about.html'' # [])
        (site_world (Parsed (JsonValue (Some [alt_fix ''<img src=a.png>'' ''<img src=a.png alt=Logo>''])))
           (html_file ''<p>Home</p>'') (html_file ''<p><img  src=a.png></p>'') ''y'')
      = (Inr \<lparr>fix_of = alt_fix ''<img src=a.png>'' ''<img src=a.png alt=Logo>'',
              file_of = ''site/about.html'', applied = False, reason = Some ''dry-run''\<rparr>,
         site_world (Parsed (JsonValue (Some [alt_fix ''<img src=a.png>'' ''<img src=a.png alt=Logo>''])))
           (html_file ''<p>Home</p>'') (html_file ''<p><img  src=a.png></p>'') ''y'')
   \<and> fst (runPatchAgent ''report.json'' ''site'' True
        (site_world (Parsed (JsonValue (Some [alt_fix ''<img src=a.png>'' ''<img src=a.png alt=Logo>''])))
           (html_file ''<p>Home</p>'') (html_file ''<p><img  src=a.png></p>'') ''y''))
      = Returned [\<lparr>fix_of = alt_fix ''<img src=a.png>'' ''<img src=a.png alt=Logo>'',
                    file_of = ''site/about.html'', applied = False, reason = Some ''dry-run''\<rparr>]
   \<and> (\<exists>fxs sourceFiles.
         reports (site_world (Parsed (JsonValue (Some [alt_fix ''<img src=a.png>'' ''<img src=a.png alt=Logo>''])))
           (html_file ''<p>Home</p>'') (html_file ''<p><img  src=a.png></p>'') ''y'') ''report.json''
           = Parsed (JsonValue (Some fxs))
         \<and> walkDir (site_world (Parsed (JsonValue (Some [alt_fix ''<img src=a.png>'' ''<img src=a.png alt=Logo>''])))
           (html_file ''<p>Home</p>'') (html_file ''<p><img  src=a.png></p>'') ''y'') ''site''
             HTML_EXTENSIONS = Inr sourceFiles
         \<and> list_all2
             (dry_run_recorded (site_world (Parsed (JsonValue (Some [alt_fix ''<img src=a.png>'' ''<img src=a.png alt=Logo>''])))
           (html_file ''<p>Home</p>'') (html_file ''<p><img  src=a.png></p>'') ''y'') sourceFiles)
             fxs
             [\<lparr>fix_of = alt_fix ''<img src=a.png>'' ''<img src=a.png alt=Logo>'',
               file_of = ''site/about.html'', applied = False, reason = Some ''dry-run''\<rparr>])"
proof -
  let ?fx = "alt_fix ''<img src=a.png>'' ''<img src=a.png alt=Logo>''"
  let ?w = "site_world (Parsed (JsonValue (Some [?fx])))
              (html_file ''<p>Home</p>'') (html_file ''<p><img  src=a.png></p>'') ''y''"
  let ?argv = "[''node'', ''patch.ts'', ''report.json'', ''site'', ''--dry-run'']"
  let ?rs = "[\<lparr>fix_of = ?fx, file_of = ''site/about.html'', applied = False,
                reason = Some ''dry-run''\<rparr>]"
  have h1: "''--dry-run'' \<in> set (drop 2 ?argv)"
    by simp
  have "no_match_in ?w ?fx ''site/index.html''"
    by code_simp
  then have h2: "\<forall>q\<in>set [''site/index.html'']. no_match_in ?w ?fx q"
    by simp
  have h3: "match_in ?w ?fx ''site/about.html''"
    by code_simp
  have h4: "fst (runPatchAgent ''report.json'' ''site'' True ?w) = Returned ?rs"
    by code_simp
  note T = dry_run_never_writes
      [of "''report.json''" "''site''" ?w ?argv "[''site/index.html'']" ?fx "''site/about.html''" "[]"]
  have a: "snd (main ?argv ?w) = ?w"
    by (rule mp [OF conjunct1 [OF conjunct2 [OF T]] h1])
  have b: "patch_fix True ?fx ([''site/index.html''] @ ''site/about.html'' # []) ?w =
          (Inr \<lparr>fix_of = ?fx, file_of = ''site/about.html'', applied = False,
                reason = Some ''dry-run''\<rparr>, ?w)"
    by (rule mp [OF conjunct1 [OF conjunct2 [OF conjunct2 [OF conjunct2 [OF T]]]] conjI [OF h2 h3]])
  have c: "\<exists>fxs sourceFiles.
         reports ?w ''report.json'' = Parsed (JsonValue (Some fxs))
         \<and> walkDir ?w ''site'' HTML_EXTENSIONS = Inr sourceFiles
         \<and> list_all2 (dry_run_recorded ?w sourceFiles) fxs ?rs"
    by (rule mp [OF spec [OF conjunct2 [OF conjunct2 [OF conjunct2 [OF conjunct2 [OF T]]]]] h4])
  show ?thesis
    by (rule conjI [OF h1 conjI [OF a conjI [OF b conjI [OF h4 c]]]])
qed

section \<open>Exit codes and input/output failures\<close>

lemma main_args:
  assumes "filter (\<lambda>a. \<not> prefix ''--'' a) (drop 2 argv) = reportPath # sourceDir # others"
  shows "main argv w =
     (case runPatchAgent reportPath sourceDir (''--dry-run'' \<in> set (drop 2 argv)) w of
        (Exit code, w') \<Rightarrow> (code, w')
      | (Returned results, w') \<Rightarrow> (0, w')
      | (Threw e, w') \<Rightarrow> (1, w'))"
proof -
  have "(''--dry-run'' \<in> set (filter (\<lambda>a. prefix ''--'' a) (drop 2 argv)))
        = (''--dry-run'' \<in> set (drop 2 argv))"
    by simp
  then show ?thesis
    unfolding main_def Let_def assms by simp
qed

lemma runPatchAgent_no_list:
  "reports w reportPath = Parsed (JsonValue None) \<or> reports w reportPath = Parsed (JsonValue (Some []))
   \<Longrightarrow> runPatchAgent reportPath sourceDir dryRun w = (Exit 0, w)"
  by (auto simp: runPatchAgent_def)

lemma runPatchAgent_missing:
  "reports w reportPath = Missing \<Longrightarrow> runPatchAgent reportPath sourceDir dryRun w = (Exit 1, w)"
  by (simp add: runPatchAgent_def)

lemma runPatchAgent_unparsable:
  "reports w reportPath = Unparsable \<Longrightarrow>
     runPatchAgent reportPath sourceDir dryRun w = (Threw SyntaxError, w)"
  by (simp add: runPatchAgent_def)

lemma runPatchAgent_null:
  "reports w reportPath = Parsed JsonNull \<Longrightarrow>
     runPatchAgent reportPath sourceDir dryRun w = (Threw TypeError, w)"
  by (simp add: runPatchAgent_def)

text \<open>
  C7, as amended. With a report path and a source directory on the command line, the
  patch CLI exits with code 0 when \<open>runPatchAgent\<close> returns (whatever results it
  collected, also when no fix was applied), and with code 1 when the report file is
  missing, cannot be read and parsed, or holds the JSON value \<open>null\<close>. A report that
  parses to a value other than \<open>null\<close> with no \<open>approvedFixes\<close> list, or with an empty
  one, ends the run with a warning and exit code 0, not 1.
\<close>

theorem patch_cli_exit_codes:
  assumes "filter (\<lambda>a. \<not> prefix ''--'' a) (drop 2 argv) = reportPath # sourceDir # others"
  shows "(\<forall>results w'.
            runPatchAgent reportPath sourceDir (''--dry-run'' \<in> set (drop 2 argv)) w
              = (Returned results, w') \<longrightarrow> fst (main argv w) = 0)
         \<and> (reports w reportPath = Missing \<longrightarrow> fst (main argv w) = 1)
         \<and> (reports w reportPath = Unparsable \<longrightarrow> fst (main argv w) = 1)
         \<and> (reports w reportPath = Parsed (JsonValue None) \<longrightarrow> fst (main argv w) = 0)
         \<and> (reports w reportPath = Parsed (JsonValue (Some [])) \<longrightarrow> fst (main argv w) = 0)
         \<and> (reports w reportPath = Parsed JsonNull \<longrightarrow> fst (main argv w) = 1)"
  unfolding main_args [OF assms]
  using runPatchAgent_no_list [of w reportPath sourceDir "''--dry-run'' \<in> set (drop 2 argv)"]
    runPatchAgent_missing [of w reportPath sourceDir "''--dry-run'' \<in> set (drop 2 argv)"]
    runPatchAgent_unparsable [of w reportPath sourceDir "''--dry-run'' \<in> set (drop 2 argv)"]
    runPatchAgent_null [of w reportPath sourceDir "''--dry-run'' \<in> set (drop 2 argv)"]
  by auto

theorem patch_cli_exit_codes_witness:
  "filter (\<lambda>a. \<not> prefix ''--'' a)
      (drop 2 [''node'', ''patch.ts'', ''report.json'', ''site'', ''--dry-run''])
     = [''report.json'', ''site'']
   \<and> fst (runPatchAgent ''report.json'' ''site''
        (''--dry-run'' \<in> set (drop 2 [''node'', ''patch.ts'', ''report.json'', ''site'', ''--dry-run'']))
        (site_world (Parsed (JsonValue (Some [alt_fix ''<img src=a.png>'' ''<img src=a.png alt=Logo>''])))
           (html_file ''<p>Home</p>'') (html_file ''<p>About</p>'') ''y''))
      = Returned [\<lparr>fix_of = alt_fix ''<img src=a.png>'' ''<img src=a.png alt=Logo>'', file_of = [],
                    applied = False, reason = Some ''currentCode not found in any file''\<rparr>]
   \<and> fst (main [''node'', ''patch.ts'', ''report.json'', ''site'', ''--dry-run'']
        (site_world (Parsed (JsonValue (Some [alt_fix ''<img src=a.png>'' ''<img src=a.png alt=Logo>''])))
           (html_file ''<p>Home</p>'') (html_file ''<p>About</p>'') ''y'')) = 0"
proof -
  let ?fx = "alt_fix ''<img src=a.png>'' ''<img src=a.png alt=Logo>''"
  let ?w = "site_world (Parsed (JsonValue (Some [?fx])))
              (html_file ''<p>Home</p>'') (html_file ''<p>About</p>'') ''y''"
  let ?argv = "[''node'', ''patch.ts'', ''report.json'', ''site'', ''--dry-run'']"
  let ?rs = "[\<lparr>fix_of = ?fx, file_of = [], applied = False,
                reason = Some ''currentCode not found in any file''\<rparr>]"
  let ?run = "runPatchAgent ''report.json'' ''site'' (''--dry-run'' \<in> set (drop 2 ?argv)) ?w"
  have h: "filter (\<lambda>a. \<not> prefix ''--'' a) (drop 2 ?argv) = ''report.json'' # ''site'' # []"
    by simp
  have e: "fst ?run = Returned ?rs"
    by code_simp
  have r: "?run = (Returned ?rs, snd ?run)"
    by (rule prod_eqI) (simp_all only: fst_conv snd_conv e)
  note T = patch_cli_exit_codes [OF h, of ?w]
  have "fst (main ?argv ?w) = 0"
    by (rule mp [OF spec [OF spec [OF conjunct1 [OF T]]] r])
  with h e show ?thesis
    by (intro conjI)
qed

theorem patch_cli_exit_codes_counterexample:
  "reports (site_world (Parsed (JsonValue None)) (html_file ''<p>Home</p>'')
              (html_file ''<p>About</p>'') ''y'') ''report.json'' = Parsed (JsonValue None)
   \<and> fst (main [''node'', ''patch.ts'', ''report.json'', ''site'']
            (site_world (Parsed (JsonValue None)) (html_file ''<p>Home</p>'')
               (html_file ''<p>About</p>'') ''y'')) = 0
   \<and> fst (main [''node'', ''patch.ts'', ''report.json'', ''site'']
            (site_world (Parsed (JsonValue None)) (html_file ''<p>Home</p>'')
               (html_file ''<p>About</p>'') ''y'')) \<noteq> 1"
  by (simp add: site_world_def main_def runPatchAgent_def)

lemma patch_loop_append:
  "patch_loop dryRun fs (xs @ ys) acc w =
     (case patch_loop dryRun fs xs acc w of
        (Inl e, w') \<Rightarrow> (Inl e, w')
      | (Inr rs, w') \<Rightarrow> patch_loop dryRun fs ys rs w')"
  by (induction xs arbitrary: acc w) (auto split: prod.splits sum.splits)

lemma patch_loop_abort:
  assumes "patch_loop dryRun sourceFiles earlier [] w = (Inr rs, w1)"
    and "patch_fix dryRun fx sourceFiles w1 = (Inl e, w2)"
  shows "patch_loop dryRun sourceFiles (earlier @ fx # rest) [] w = (Inl e, w2)"
  using assms by (simp add: patch_loop_append)

text \<open>
  C8, as amended. A file read or write failure while patching one approved fix is not
  confined to that fix: when the fixes before it were handled and the loop body for it
  raises the exception \<open>e\<close>, the loop over the approved fixes ends there with \<open>e\<close>, in the
  world as it is then, and no result is produced for that fix or for any fix after it;
  \<open>runPatchAgent\<close> throws \<open>e\<close> and \<open>main\<close> exits with code 1.
\<close>

theorem io_failure_aborts_run:
  assumes "patch_loop dryRun sourceFiles earlier [] w = (Inr rs, w1)"
    and "patch_fix dryRun fx sourceFiles w1 = (Inl e, w2)"
  shows "patch_loop dryRun sourceFiles (earlier @ fx # rest) [] w = (Inl e, w2)
    \<and> (reports w reportPath = Parsed (JsonValue (Some (earlier @ fx # rest)))
        \<and> walkDir w sourceDir HTML_EXTENSIONS = Inr sourceFiles \<and> sourceFiles \<noteq> []
        \<longrightarrow> runPatchAgent reportPath sourceDir dryRun w = (Threw e, w2))
    \<and> (reports w reportPath = Parsed (JsonValue (Some (earlier @ fx # rest)))
        \<and> walkDir w sourceDir HTML_EXTENSIONS = Inr sourceFiles \<and> sourceFiles \<noteq> []
        \<and> filter (\<lambda>a. \<not> prefix ''--'' a) (drop 2 argv) = reportPath # sourceDir # others
        \<and> dryRun = (''--dry-run'' \<in> set (drop 2 argv))
        \<longrightarrow> main argv w = (1, w2))"
proof -
  have l: "patch_loop dryRun sourceFiles (earlier @ fx # rest) [] w = (Inl e, w2)"
    by (rule patch_loop_abort [OF assms])
  have r: "runPatchAgent reportPath sourceDir dryRun w = (Threw e, w2)"
    if "reports w reportPath = Parsed (JsonValue (Some (earlier @ fx # rest)))"
      "walkDir w sourceDir HTML_EXTENSIONS = Inr sourceFiles" "sourceFiles \<noteq> []"
    using that l by (simp add: runPatchAgent_def)
  have m: "main argv w = (1, w2)"
    if "reports w reportPath = Parsed (JsonValue (Some (earlier @ fx # rest)))"
      "walkDir w sourceDir HTML_EXTENSIONS = Inr sourceFiles" "sourceFiles \<noteq> []"
      "filter (\<lambda>a. \<not> prefix ''--'' a) (drop 2 argv) = reportPath # sourceDir # others"
      "dryRun = (''--dry-run'' \<in> set (drop 2 argv))"
    using r [OF that(1-3)] that(5) by (simp add: main_args [OF that(4)])
  show ?thesis
    using l r m by blast
qed

theorem io_failure_aborts_run_witness:
  "fst (patch_fix False (alt_fix ''<img src=a.png>'' ''<img src=a.png alt=Logo>'')
          [''site/index.html'', ''site/about.html'']
          (site_world Missing (readonly_file ''<img src=a.png>'') (html_file ''<p>About</p>'') ''y''))
     = Inl EACCES
   \<and> fst (patch_loop False [''site/index.html'', ''site/about.html'']
          ([] @ alt_fix ''<img src=a.png>'' ''<img src=a.png alt=Logo>''
              # [alt_fix ''<p>About</p>'' ''<p lang=en>About</p>'']) []
          (site_world Missing (readonly_file ''<img src=a.png>'') (html_file ''<p>About</p>'') ''y''))
     = Inl EACCES"
proof -
  let ?w = "site_world Missing (readonly_file ''<img src=a.png>'') (html_file ''<p>About</p>'') ''y''"
  let ?fx = "alt_fix ''<img src=a.png>'' ''<img src=a.png alt=Logo>''"
  let ?fs = "[''site/index.html'', ''site/about.html'']"
  let ?step = "patch_fix False ?fx ?fs ?w"
  have h1: "patch_loop False ?fs [] [] ?w = (Inr [], ?w)"
    by simp
  have e: "fst ?step = Inl EACCES"
    by code_simp
  have h2: "?step = (Inl EACCES, snd ?step)"
    by (rule prod_eqI) (simp_all only: fst_conv snd_conv e)
  note T = io_failure_aborts_run [OF h1 h2, of "[alt_fix ''<p>About</p>'' ''<p lang=en>About</p>'']"]
  have "patch_loop False ?fs ([] @ ?fx # [alt_fix ''<p>About</p>'' ''<p lang=en>About</p>'']) [] ?w
        = (Inl EACCES, snd ?step)"
    by (rule conjunct1 [OF T])
  then have "fst (patch_loop False ?fs ([] @ ?fx # [alt_fix ''<p>About</p>'' ''<p lang=en>About</p>'']) [] ?w)
        = Inl EACCES"
    by (simp only: fst_conv)
  with e show ?thesis
    by (intro conjI)
qed

theorem io_failure_aborts_run_counterexample:
  "fst (runPatchAgent ''report.json'' ''site'' False
         (site_world
            (Parsed (JsonValue (Some [alt_fix ''<img src=a.png>'' ''<img src=a.png alt=Logo>'',
                                      alt_fix ''<p>About</p>'' ''<p lang=en>About</p>''])))
            (readonly_file ''<img src=a.png>'') (html_file ''<p>About</p>'') ''y''))
     = Threw EACCES
   \<and> fst (main [''node'', ''patch.ts'', ''report.json'', ''site'']
         (site_world
            (Parsed (JsonValue (Some [alt_fix ''<img src=a.png>'' ''<img src=a.png alt=Logo>'',
                                      alt_fix ''<p>About</p>'' ''<p lang=en>About</p>''])))
            (readonly_file ''<img src=a.png>'') (html_file ''<p>About</p>'') ''y'')) = 1
   \<and> match_in
         (site_world
            (Parsed (JsonValue (Some [alt_fix ''<img src=a.png>'' ''<img src=a.png alt=Logo>'',
                                      alt_fix ''<p>About</p>'' ''<p lang=en>About</p>''])))
            (readonly_file ''<img src=a.png>'') (html_file ''<p>About</p>'') ''y'')
         (alt_fix ''<p>About</p>'' ''<p lang=en>About</p>'') ''site/about.html''"
proof -
  let ?w = "site_world
            (Parsed (JsonValue (Some [alt_fix ''<img src=a.png>'' ''<img src=a.png alt=Logo>'',
                                      alt_fix ''<p>About</p>'' ''<p lang=en>About</p>''])))
            (readonly_file ''<img src=a.png>'') (html_file ''<p>About</p>'') ''y''"
  have 1: "fst (runPatchAgent ''report.json'' ''site'' False ?w) = Threw EACCES"
    by code_simp
  have 2: "fst (main [''node'', ''patch.ts'', ''report.json'', ''site''] ?w) = 1"
    by code_simp
  have 3: "match_in ?w (alt_fix ''<p>About</p>'' ''<p lang=en>About</p>'') ''site/about.html''"
    by code_simp
  show ?thesis
    by (rule conjI [OF 1 conjI [OF 2 3]])
qed

text \<open>
  C4. In live mode, with the fix confirmed, the file is written with the result of
  \<open>original.replace(found, fix.suggestedFix)\<close>. A \<open>suggestedFix\<close> that contains a dollar
  pattern is not inserted as it is: for the file \<open><p><b>5 USD</b></p>\<close>, the matched span
  \<open><b>5 USD</b>\<close> and the fix \<open><b>$&nbsp;5</b>\<close>, the run completes and the file on disk
  holds \<open><p><b><b>5 USD</b>nbsp;5</b></p>\<close>, where \<open>$&\<close> has become the matched span.
\<close>

theorem suggestedFix_dollar_patterns_expanded:
  "fst (main [''node'', ''patch.ts'', ''report.json'', ''site'']
         (site_world (Parsed (JsonValue (Some [alt_fix ''<b>5 USD</b>'' ''<b>$&nbsp;5</b>''])))
            (html_file ''<p><b>5 USD</b></p>'') (html_file ''<p>About</p>'') ''y'')) = 0
   \<and> map_option content
        (files (snd (main [''node'', ''patch.ts'', ''report.json'', ''site'']
           (site_world (Parsed (JsonValue (Some [alt_fix ''<b>5 USD</b>'' ''<b>$&nbsp;5</b>''])))
              (html_file ''<p><b>5 USD</b></p>'') (html_file ''<p>About</p>'') ''y'')))
           ''site/index.html'')
      = Some ''<p><b><b>5 USD</b>nbsp;5</b></p>''"
proof -
  let ?w = "site_world (Parsed (JsonValue (Some [alt_fix ''<b>5 USD</b>'' ''<b>$&nbsp;5</b>''])))
            (html_file ''<p><b>5 USD</b></p>'') (html_file ''<p>About</p>'') ''y''"
  let ?argv = "[''node'', ''patch.ts'', ''report.json'', ''site'']"
  have 1: "fst (main ?argv ?w) = 0"
    by code_simp
  have 2: "map_option content (files (snd (main ?argv ?w)) ''site/index.html'')
           = Some ''<p><b><b>5 USD</b>nbsp;5</b></p>''"
    by code_simp
  show ?thesis
    by (rule conjI [OF 1 2])
qed

section \<open>Properties of the Span Matcher\<close>

lemma includes_str_iff: "includes_str h n \<longleftrightarrow> sublist n h"
  by (induction h) (auto simp: sublist_Cons_right)

lemma is_ws_space: "is_ws CHR '' ''"
  by (simp add: is_ws_def)

lemma collapse_ws_length: "length (collapse_ws s) \<le> length s"
proof (induction s rule: collapse_ws.induct)
  case 1
  then show ?case by simp
next
  case (2 c cs)
  have "length (dropWhile is_ws cs) \<le> length cs"
    by (rule length_dropWhile_le)
  with 2 show ?case by (cases "is_ws c") auto
qed

lemma trim_length: "length (trim s) \<le> length s"
proof -
  have "length (trim s) \<le> length (dropWhile is_ws s)"
    unfolding trim_def using length_dropWhile_le [of is_ws "rev (dropWhile is_ws s)"] by simp
  also have "\<dots> \<le> length s" by (rule length_dropWhile_le)
  finally show ?thesis .
qed

lemma normalizeWs_length: "length (normalizeWs s) \<le> length s"
  unfolding normalizeWs_def
  using trim_length [of "collapse_ws s"] collapse_ws_length [of s] by linarith

lemma collapse_ws_eq_Nil: "collapse_ws s = [] \<longleftrightarrow> s = []"
  by (cases s) auto

lemma dropWhile_keeps_tail:
  "v = [] \<or> \<not> P (hd v) \<Longrightarrow> dropWhile P (u @ v) = dropWhile P u @ v"
  by (induction u) (auto simp: dropWhile_eq_self_iff)

lemma collapse_ws_append_r:
  "v = [] \<or> \<not> is_ws (hd v) \<Longrightarrow> collapse_ws (u @ v) = collapse_ws u @ collapse_ws v"
proof (induction u rule: collapse_ws.induct)
  case 1
  then show ?case by simp
next
  case (2 c cs)
  then show ?case
    by (cases "is_ws c") (simp_all add: dropWhile_keeps_tail)
qed

lemma hd_collapse_ws: "s \<noteq> [] \<Longrightarrow> is_ws (hd (collapse_ws s)) \<longleftrightarrow> is_ws (hd s)"
  by (cases s) (auto simp: is_ws_space)

lemma last_collapse_ws: "s \<noteq> [] \<Longrightarrow> is_ws (last (collapse_ws s)) \<longleftrightarrow> is_ws (last s)"
proof (induction s rule: collapse_ws.induct)
  case 1
  then show ?case by simp
next
  case (2 c cs)
  show ?case
  proof (cases "is_ws c")
    case True
    show ?thesis
    proof (cases "dropWhile is_ws cs = []")
      case e: True
      then have "\<forall>x\<in>set cs. is_ws x" by simp
      then have w: "is_ws (last (c # cs))" using True by (cases cs) auto
      from e have "collapse_ws (dropWhile is_ws cs) = []" by (simp only: collapse_ws.simps)
      then have "collapse_ws (c # cs) = [CHR '' '']" using True by (simp only: collapse_ws.simps if_True)
      then have ll: "last (collapse_ws (c # cs)) = last [CHR '' '']" by (rule arg_cong)
      have "is_ws (last [CHR '' ''])" by (simp add: is_ws_space)
      then have "is_ws (last (collapse_ws (c # cs)))" by (simp only: ll)
      with w show ?thesis by blast
    next
      case ne: False
      then obtain x where x: "x \<in> set cs" "\<not> is_ws x" by auto
      have l: "last (dropWhile is_ws cs) = last cs"
        by (rule dropWhile_last [of x cs is_ws, OF x])
      have "cs \<noteq> []" using x by auto
      with 2(1) [OF True ne] True ne l show ?thesis
        by (simp add: collapse_ws_eq_Nil is_ws_space)
    qed
  next
    case False
    with 2(2) show ?thesis
      by (cases "cs = []") (simp_all add: collapse_ws_eq_Nil)
  qed
qed

lemma collapse_ws_append_l:
  "u \<noteq> [] \<Longrightarrow> \<not> is_ws (last u) \<Longrightarrow> collapse_ws (u @ v) = collapse_ws u @ collapse_ws v"
proof (induction u rule: collapse_ws.induct)
  case 1
  then show ?case by simp
next
  case (2 c cs)
  show ?case
  proof (cases "is_ws c")
    case True
    with 2(3,4) have cs: "cs \<noteq> []" "\<not> is_ws (last cs)" by (auto split: if_splits)
    then have x: "last cs \<in> set cs" by simp
    have ne: "dropWhile is_ws cs \<noteq> []" using x cs(2) by auto
    have l: "last (dropWhile is_ws cs) = last cs"
      by (rule dropWhile_last [of "last cs" cs is_ws, OF x cs(2)])
    have d: "dropWhile is_ws (cs @ v) = dropWhile is_ws cs @ v"
      using x cs(2) by (simp add: dropWhile_append1)
    show ?thesis
      using 2(1) [OF True ne] True l cs(2) d by simp
  next
    case False
    show ?thesis
    proof (cases "cs = []")
      case True
      with False show ?thesis by simp
    next
      case ne: False
      with 2(4) have "\<not> is_ws (last cs)" by simp
      with 2(2) [OF False ne] False show ?thesis by simp
    qed
  qed
qed


lemma trim_nonws: "trim s \<noteq> [] \<Longrightarrow> \<not> is_ws (hd (trim s)) \<and> \<not> is_ws (last (trim s))"
proof -
  assume ne: "trim s \<noteq> []"
  let ?d = "dropWhile is_ws s"
  let ?r = "dropWhile is_ws (rev ?d)"
  have t: "trim s = rev ?r" by (simp add: trim_def)
  with ne have r: "?r \<noteq> []" by simp
  then have a: "\<not> is_ws (hd ?r)" by (rule hd_dropWhile)
  have l: "last (trim s) = hd ?r" using r by (simp add: t last_rev)
  have rd: "rev ?d \<noteq> []"
  proof
    assume "rev ?d = []"
    then have "?r = []" by (simp only: dropWhile.simps)
    with r show False by contradiction
  qed
  then have d: "?d \<noteq> []" by simp
  then have hdd: "\<not> is_ws (hd ?d)" by (rule hd_dropWhile)
  have "last ?r = last (rev ?d)"
  proof -
    have "hd ?d \<in> set (rev ?d)" using d by simp
    then show ?thesis using hdd by (rule dropWhile_last)
  qed
  then have "hd (trim s) = hd ?d" using r d by (simp add: t hd_rev last_rev)
  with hdd a l show ?thesis by simp
qed

lemma trim_id: "s = [] \<or> (\<not> is_ws (hd s) \<and> \<not> is_ws (last s)) \<Longrightarrow> trim s = s"
proof (cases "s = []")
  case True
  then show ?thesis by (simp add: trim_def)
next
  case False
  assume "s = [] \<or> (\<not> is_ws (hd s) \<and> \<not> is_ws (last s))"
  with False have h: "\<not> is_ws (hd s)" and l: "\<not> is_ws (last s)" by auto
  have 1: "dropWhile is_ws s = s" using h by (simp add: dropWhile_eq_self_iff)
  have "hd (rev s) = last s" using False by (simp add: hd_rev)
  then have 2: "dropWhile is_ws (rev s) = rev s" using l by (simp add: dropWhile_eq_self_iff)
  show ?thesis by (simp add: trim_def 1 2)
qed

lemma sublist_dropWhile:
  assumes "sublist x s" "x \<noteq> []" "\<not> P (hd x)"
  shows "sublist x (dropWhile P s)"
proof -
  from assms(1) obtain p q where s: "s = p @ x @ q" by (auto simp: sublist_def)
  have "hd (x @ q) = hd x" using assms(2) by simp
  then have "dropWhile P (p @ x @ q) = dropWhile P p @ x @ q"
    using assms(3) by (intro dropWhile_keeps_tail) simp
  then show ?thesis unfolding s by (metis sublist_appendI)
qed

lemma sublist_trim:
  assumes "sublist x s" "x \<noteq> []" "\<not> is_ws (hd x)" "\<not> is_ws (last x)"
  shows "sublist x (trim s)"
proof -
  have 1: "sublist x (dropWhile is_ws s)"
    by (rule sublist_dropWhile [of x s is_ws, OF assms(1-3)])
  then have "sublist (rev x) (rev (dropWhile is_ws s))" by simp
  moreover have "rev x \<noteq> []" using assms(2) by simp
  moreover have "\<not> is_ws (hd (rev x))" using assms(2,4) by (simp add: hd_rev)
  ultimately have "sublist (rev x) (dropWhile is_ws (rev (dropWhile is_ws s)))"
    by (rule sublist_dropWhile [of "rev x" "rev (dropWhile is_ws s)" is_ws])
  then have "sublist (rev (rev x)) (rev (dropWhile is_ws (rev (dropWhile is_ws s))))"
    by (simp only: sublist_rev)
  then show ?thesis by (simp add: trim_def)
qed

lemma trim_sublist: "sublist (trim s) s"
proof -
  have "suffix (dropWhile is_ws s) s"
    by (rule suffix_dropWhile)
  then have a: "sublist (dropWhile is_ws s) s" by (rule suffix_imp_sublist)
  have "suffix (dropWhile is_ws (rev (dropWhile is_ws s))) (rev (dropWhile is_ws s))"
    by (rule suffix_dropWhile)
  then have "sublist (dropWhile is_ws (rev (dropWhile is_ws s))) (rev (dropWhile is_ws s))"
    by (rule suffix_imp_sublist)
  then have "sublist (trim s) (dropWhile is_ws s)"
    unfolding trim_def by (simp add: sublist_rev_left)
  with a show ?thesis by (rule sublist_order.order_trans [rotated])
qed

text \<open>A prefix of the collapsed text that ends in a non-whitespace character is the
  collapsed form of a prefix of the text.\<close>

lemma collapse_ws_prefix_span:
  "collapse_ws h = x @ q \<Longrightarrow> x \<noteq> [] \<Longrightarrow> \<not> is_ws (last x)
   \<Longrightarrow> \<exists>s r. h = s @ r \<and> collapse_ws s = x"
proof (induction h arbitrary: x rule: collapse_ws.induct)
  case 1
  then show ?case by simp
next
  case (2 c cs)
  obtain y x' where x: "x = y # x'" using 2(4) by (cases x) auto
  show ?case
  proof (cases "is_ws c")
    case True
    with 2(3) x have y: "y = CHR '' ''" and c: "collapse_ws (dropWhile is_ws cs) = x' @ q"
      by auto
    have x'ne: "x' \<noteq> []" using 2(5) x y by (auto simp: is_ws_space)
    then have lx: "\<not> is_ws (last x')" using 2(5) x by simp
    from 2(1) [OF True c x'ne lx] obtain s r where
      sr: "dropWhile is_ws cs = s @ r" "collapse_ws s = x'" by blast
    have sne: "s \<noteq> []" using sr(2) x'ne by auto
    have "dropWhile is_ws cs \<noteq> []" using sr(1) sne by simp
    then have "\<not> is_ws (hd (dropWhile is_ws cs))" by (rule hd_dropWhile)
    then have hs: "\<not> is_ws (hd s)" using sr(1) sne by simp
    have "dropWhile is_ws (takeWhile is_ws cs @ s) = dropWhile is_ws s"
      by (rule dropWhile_append2) (auto dest: set_takeWhileD)
    then have d: "dropWhile is_ws (takeWhile is_ws cs @ s) = s"
      using hs by (simp add: dropWhile_eq_self_iff)
    have "c # cs = (c # takeWhile is_ws cs @ s) @ r"
      using sr(1) by (metis append_Cons append_assoc takeWhile_dropWhile_id)
    moreover have "collapse_ws (c # takeWhile is_ws cs @ s) = x"
      using True d sr(2) x y by simp
    ultimately show ?thesis by blast
  next
    case False
    with 2(3) x have y: "y = c" and c: "collapse_ws cs = x' @ q" by auto
    show ?thesis
    proof (cases "x' = []")
      case True
      have "c # cs = [c] @ cs" by simp
      moreover have "collapse_ws [c] = x" using False x y True by simp
      ultimately show ?thesis by blast
    next
      case ne: False
      then have lx: "\<not> is_ws (last x')" using 2(5) x by simp
      from 2(2) [OF False c ne lx] obtain s r where sr: "cs = s @ r" "collapse_ws s = x'"
        by blast
      have "c # cs = (c # s) @ r" using sr(1) by simp
      moreover have "collapse_ws (c # s) = x" using False sr(2) x y by simp
      ultimately show ?thesis by blast
    qed
  qed
qed

text \<open>A part of the collapsed text that starts and ends in a non-whitespace character is
  the collapsed form of a span of the text.\<close>

lemma collapse_ws_span:
  "collapse_ws h = p @ x @ q \<Longrightarrow> x \<noteq> [] \<Longrightarrow> \<not> is_ws (hd x) \<Longrightarrow> \<not> is_ws (last x)
   \<Longrightarrow> \<exists>p' s q'. h = p' @ s @ q' \<and> collapse_ws s = x"
proof (induction h arbitrary: p rule: collapse_ws.induct)
  case 1
  then show ?case by simp
next
  case (2 c cs)
  show ?case
  proof (cases p)
    case Nil
    with 2(3) have "collapse_ws (c # cs) = x @ q" by simp
    from collapse_ws_prefix_span [OF this 2(4) 2(6)] obtain s r where
      "c # cs = s @ r" "collapse_ws s = x" by blast
    then have "c # cs = [] @ s @ r \<and> collapse_ws s = x" by simp
    then show ?thesis by blast
  next
    case (Cons y p')
    show ?thesis
    proof (cases "is_ws c")
      case True
      with 2(3) Cons have "collapse_ws (dropWhile is_ws cs) = p' @ x @ q" by simp
      from 2(1) [OF True this 2(4-6)] obtain p'' s q' where
        e: "dropWhile is_ws cs = p'' @ s @ q'" "collapse_ws s = x" by blast
      have "c # cs = (c # takeWhile is_ws cs @ p'') @ s @ q'"
        using e(1) by (metis append_Cons append_assoc takeWhile_dropWhile_id)
      with e(2) show ?thesis by blast
    next
      case False
      with 2(3) Cons have "collapse_ws cs = p' @ x @ q" by simp
      from 2(2) [OF False this 2(4-6)] obtain p'' s q' where
        e: "cs = p'' @ s @ q'" "collapse_ws s = x" by blast
      have "c # cs = (c # p'') @ s @ q'" using e(1) by simp
      with e(2) show ?thesis by blast
    qed
  qed
qed


lemma normalizeWs_nonws:
  "normalizeWs n \<noteq> [] \<Longrightarrow> \<not> is_ws (hd (normalizeWs n)) \<and> \<not> is_ws (last (normalizeWs n))"
  unfolding normalizeWs_def by (rule trim_nonws)

lemma normalized_span:
  assumes "sublist x (normalizeWs h)" "x \<noteq> []" "\<not> is_ws (hd x)" "\<not> is_ws (last x)"
  shows "\<exists>p s q. h = p @ s @ q \<and> normalizeWs s = x"
proof -
  have "sublist (normalizeWs h) (collapse_ws h)"
    unfolding normalizeWs_def by (rule trim_sublist)
  with assms(1) have "sublist x (collapse_ws h)"
    by (rule sublist_order.order_trans)
  then obtain p q where "collapse_ws h = p @ x @ q"
    by (auto simp: sublist_def)
  from collapse_ws_span [OF this assms(2-4)] obtain p' s q' where
    s: "h = p' @ s @ q'" "collapse_ws s = x" by blast
  have "normalizeWs s = x"
    unfolding normalizeWs_def s(2) using assms(3,4) by (intro trim_id) simp
  with s(1) show ?thesis by blast
qed

text \<open>A verbatim occurrence is also an occurrence after normalisation.\<close>

lemma sublist_normalizeWs:
  assumes "sublist n h"
  shows "sublist (normalizeWs n) (normalizeWs h)"
proof (cases "normalizeWs n = []")
  case True
  then show ?thesis by simp
next
  case False
  let ?x = "normalizeWs n"
  from normalizeWs_nonws [OF False] have hx: "\<not> is_ws (hd ?x)" and lx: "\<not> is_ws (last ?x)"
    by auto
  have "sublist ?x (collapse_ws n)"
    unfolding normalizeWs_def by (rule trim_sublist)
  then obtain p q where "collapse_ws n = p @ ?x @ q"
    by (auto simp: sublist_def)
  from collapse_ws_span [OF this False hx lx] obtain p' m q' where
    m: "n = p' @ m @ q'" "collapse_ws m = ?x" by blast
  have mne: "m \<noteq> []" using m(2) False by auto
  have hm: "\<not> is_ws (hd m)" using hd_collapse_ws [OF mne] hx m(2) by simp
  have lm: "\<not> is_ws (last m)" using last_collapse_ws [OF mne] lx m(2) by simp
  from assms obtain a b where "h = a @ n @ b" by (auto simp: sublist_def)
  then have h: "h = (a @ p') @ (m @ (q' @ b))" using m(1) by simp
  have "hd (m @ q' @ b) = hd m" using mne by simp
  then have "collapse_ws h = collapse_ws (a @ p') @ collapse_ws (m @ (q' @ b))"
    unfolding h using hm by (intro collapse_ws_append_r) simp
  also have "collapse_ws (m @ (q' @ b)) = collapse_ws m @ collapse_ws (q' @ b)"
    by (rule collapse_ws_append_l [OF mne lm])
  finally have "sublist ?x (collapse_ws h)"
    unfolding m(2) by (metis sublist_appendI)
  then show ?thesis
    unfolding normalizeWs_def [of h] by (rule sublist_trim [OF _ False hx lx])
qed

lemma slice_span: "slice (p @ s @ q) (length p) (length p + length s) = s"
  by (simp add: slice_def)

lemma slice_decomp:
  "i \<le> j \<Longrightarrow> j \<le> length h \<Longrightarrow> h = take i h @ slice h i j @ drop j h"
proof -
  assume a: "i \<le> j" "j \<le> length h"
  have "drop i h = take (j - i) (drop i h) @ drop (j - i) (drop i h)"
    by (simp only: append_take_drop_id)
  also have "drop (j - i) (drop i h) = drop j h" using a by simp
  finally have "take i h @ drop i h = take i h @ slice h i j @ drop j h"
    by (simp add: slice_def)
  then show ?thesis by simp
qed

lemma length_slice: "i \<le> j \<Longrightarrow> j \<le> length h \<Longrightarrow> length (slice h i j) = j - i"
  by (simp add: slice_def)

lemma sublist_iff_slice:
  "sublist s h \<longleftrightarrow> (\<exists>i j. i \<le> j \<and> j \<le> length h \<and> s = slice h i j)"
proof
  assume "sublist s h"
  then obtain p q where h: "h = p @ s @ q" by (auto simp: sublist_def)
  have "length p \<le> length p + length s \<and> length p + length s \<le> length h
        \<and> s = slice h (length p) (length p + length s)"
    unfolding h using slice_span [of p s q] by simp
  then show "\<exists>i j. i \<le> j \<and> j \<le> length h \<and> s = slice h i j" by blast
next
  assume "\<exists>i j. i \<le> j \<and> j \<le> length h \<and> s = slice h i j"
  then obtain i j where ij: "i \<le> j" "j \<le> length h" "s = slice h i j" by blast
  from slice_decomp [OF ij(1,2)] show "sublist s h"
    unfolding ij(3) by (metis sublist_appendI)
qed

subsection \<open>The two loops\<close>

lemma scan_end_None_iff:
  "scan_end h nn i j = None \<longleftrightarrow>
     (\<forall>k. j \<le> k \<and> k \<le> length h \<longrightarrow> normalizeWs (slice h i k) \<noteq> nn)"
proof (induction h nn i j rule: scan_end.induct)
  case (1 h nn i j)
  show ?case
  proof (cases "j \<le> length h")
    case False
    then show ?thesis by (subst scan_end.simps) auto
  next
    case le: True
    show ?thesis
    proof (cases "normalizeWs (slice h i j) = nn")
      case True
      with le show ?thesis by (subst scan_end.simps) auto
    next
      case False
      have "(\<forall>k. j \<le> k \<and> k \<le> length h \<longrightarrow> normalizeWs (slice h i k) \<noteq> nn)
            \<longleftrightarrow> (\<forall>k. j + 1 \<le> k \<and> k \<le> length h \<longrightarrow> normalizeWs (slice h i k) \<noteq> nn)"
        using False by (metis Suc_eq_plus1 Suc_leI le_neq_implies_less Suc_leD)
      with 1 [OF le False] le False show ?thesis
        by (subst scan_end.simps) simp
    qed
  qed
qed

lemma scan_end_Some:
  "scan_end h nn i j = Some s \<Longrightarrow>
     \<exists>k. j \<le> k \<and> k \<le> length h \<and> s = slice h i k \<and> normalizeWs s = nn
         \<and> (\<forall>k'. j \<le> k' \<and> k' < k \<longrightarrow> normalizeWs (slice h i k') \<noteq> nn)"
proof (induction h nn i j rule: scan_end.induct)
  case (1 h nn i j)
  show ?case
  proof (cases "j \<le> length h")
    case False
    with 1(2) show ?thesis by (subst (asm) scan_end.simps) simp
  next
    case le: True
    show ?thesis
    proof (cases "normalizeWs (slice h i j) = nn")
      case True
      with le 1(2) have "s = slice h i j" by (subst (asm) scan_end.simps) simp
      with le True have "j \<le> j \<and> j \<le> length h \<and> s = slice h i j \<and> normalizeWs s = nn
         \<and> (\<forall>k'. j \<le> k' \<and> k' < j \<longrightarrow> normalizeWs (slice h i k') \<noteq> nn)" by auto
      then show ?thesis by blast
    next
      case False
      with le 1(2) have "scan_end h nn i (j + 1) = Some s"
        by (subst (asm) scan_end.simps) simp
      from 1(1) [OF le False this] obtain k where
        k: "j + 1 \<le> k" "k \<le> length h" "s = slice h i k" "normalizeWs s = nn"
           "\<forall>k'. j + 1 \<le> k' \<and> k' < k \<longrightarrow> normalizeWs (slice h i k') \<noteq> nn" by blast
      have "\<forall>k'. j \<le> k' \<and> k' < k \<longrightarrow> normalizeWs (slice h i k') \<noteq> nn"
        using k(5) False by (metis Suc_eq_plus1 Suc_leI le_neq_implies_less)
      with k(1-4) have "j \<le> k \<and> k \<le> length h \<and> s = slice h i k \<and> normalizeWs s = nn
         \<and> (\<forall>k'. j \<le> k' \<and> k' < k \<longrightarrow> normalizeWs (slice h i k') \<noteq> nn)" by simp
      then show ?thesis by blast
    qed
  qed
qed


lemma scan_start_None_iff:
  "scan_start h nn i = None \<longleftrightarrow>
     (\<forall>i' k. i \<le> i' \<and> i' < length h \<and> i' + length nn \<le> k \<and> k \<le> length h
        \<longrightarrow> normalizeWs (slice h i' k) \<noteq> nn)"
proof (induction h nn i rule: scan_start.induct)
  case (1 h nn i)
  show ?case
  proof (cases "i < length h")
    case False
    then show ?thesis by (subst scan_start.simps) auto
  next
    case lt: True
    show ?thesis
    proof (cases "scan_end h nn i (i + length nn)")
      case (Some s)
      from scan_end_Some [OF this] obtain k where
        "i + length nn \<le> k" "k \<le> length h" "normalizeWs (slice h i k) = nn" by auto
      with lt have "\<not> (\<forall>i' k. i \<le> i' \<and> i' < length h \<and> i' + length nn \<le> k \<and> k \<le> length h
        \<longrightarrow> normalizeWs (slice h i' k) \<noteq> nn)" by blast
      with lt Some show ?thesis by (subst scan_start.simps) simp
    next
      case None
      then have n: "\<forall>k. i + length nn \<le> k \<and> k \<le> length h \<longrightarrow> normalizeWs (slice h i k) \<noteq> nn"
        by (simp add: scan_end_None_iff)
      have "(\<forall>i' k. i \<le> i' \<and> i' < length h \<and> i' + length nn \<le> k \<and> k \<le> length h
               \<longrightarrow> normalizeWs (slice h i' k) \<noteq> nn)
            \<longleftrightarrow> (\<forall>i' k. i + 1 \<le> i' \<and> i' < length h \<and> i' + length nn \<le> k \<and> k \<le> length h
               \<longrightarrow> normalizeWs (slice h i' k) \<noteq> nn)"
        using n by (metis Suc_eq_plus1 Suc_leI le_neq_implies_less Suc_leD)
      with 1 [OF lt None] lt None show ?thesis
        by (subst scan_start.simps) simp
    qed
  qed
qed

lemma scan_start_Some:
  "scan_start h nn i0 = Some s \<Longrightarrow>
     \<exists>i k. i0 \<le> i \<and> i < length h \<and> i + length nn \<le> k \<and> k \<le> length h
       \<and> s = slice h i k \<and> normalizeWs s = nn
       \<and> (\<forall>i' k'. i0 \<le> i' \<and> i' < length h \<and> i' + length nn \<le> k' \<and> k' \<le> length h
              \<and> normalizeWs (slice h i' k') = nn \<longrightarrow> i < i' \<or> (i = i' \<and> k \<le> k'))"
proof (induction h nn i0 rule: scan_start.induct)
  case (1 h nn i0)
  show ?case
  proof (cases "i0 < length h")
    case False
    with 1(2) show ?thesis by (subst (asm) scan_start.simps) simp
  next
    case lt: True
    show ?thesis
    proof (cases "scan_end h nn i0 (i0 + length nn)")
      case (Some s')
      with lt 1(2) have "s' = s" by (subst (asm) scan_start.simps) simp
      with scan_end_Some [OF Some] obtain k where
        k: "i0 + length nn \<le> k" "k \<le> length h" "s = slice h i0 k" "normalizeWs s = nn"
           "\<forall>k'. i0 + length nn \<le> k' \<and> k' < k \<longrightarrow> normalizeWs (slice h i0 k') \<noteq> nn"
        by auto
      have "\<forall>i' k'. i0 \<le> i' \<and> i' < length h \<and> i' + length nn \<le> k' \<and> k' \<le> length h
              \<and> normalizeWs (slice h i' k') = nn \<longrightarrow> i0 < i' \<or> (i0 = i' \<and> k \<le> k')"
        using k(5) by (metis le_neq_implies_less not_le_imp_less)
      with lt k(1-4) have "i0 \<le> i0 \<and> i0 < length h \<and> i0 + length nn \<le> k \<and> k \<le> length h
       \<and> s = slice h i0 k \<and> normalizeWs s = nn
       \<and> (\<forall>i' k'. i0 \<le> i' \<and> i' < length h \<and> i' + length nn \<le> k' \<and> k' \<le> length h
              \<and> normalizeWs (slice h i' k') = nn \<longrightarrow> i0 < i' \<or> (i0 = i' \<and> k \<le> k'))"
        by simp
      then show ?thesis by blast
    next
      case None
      then have n: "\<forall>k. i0 + length nn \<le> k \<and> k \<le> length h \<longrightarrow> normalizeWs (slice h i0 k) \<noteq> nn"
        by (simp add: scan_end_None_iff)
      from lt None 1(2) have "scan_start h nn (i0 + 1) = Some s"
        by (subst (asm) scan_start.simps) simp
      from 1(1) [OF lt None this] obtain i k where
        ik: "i0 + 1 \<le> i" "i < length h" "i + length nn \<le> k" "k \<le> length h"
            "s = slice h i k" "normalizeWs s = nn"
            "\<forall>i' k'. i0 + 1 \<le> i' \<and> i' < length h \<and> i' + length nn \<le> k' \<and> k' \<le> length h
              \<and> normalizeWs (slice h i' k') = nn \<longrightarrow> i < i' \<or> (i = i' \<and> k \<le> k')"
        by blast
      have "\<forall>i' k'. i0 \<le> i' \<and> i' < length h \<and> i' + length nn \<le> k' \<and> k' \<le> length h
              \<and> normalizeWs (slice h i' k') = nn \<longrightarrow> i < i' \<or> (i = i' \<and> k \<le> k')"
      proof (intro allI impI)
        fix i' k'
        assume a: "i0 \<le> i' \<and> i' < length h \<and> i' + length nn \<le> k' \<and> k' \<le> length h
              \<and> normalizeWs (slice h i' k') = nn"
        with n have "i' \<noteq> i0" by blast
        with a have "i0 + 1 \<le> i'" by simp
        with a ik(7) show "i < i' \<or> (i = i' \<and> k \<le> k')" by blast
      qed
      moreover have "i0 \<le> i" using ik(1) by simp
      ultimately have "i0 \<le> i \<and> i < length h \<and> i + length nn \<le> k \<and> k \<le> length h
       \<and> s = slice h i k \<and> normalizeWs s = nn
       \<and> (\<forall>i' k'. i0 \<le> i' \<and> i' < length h \<and> i' + length nn \<le> k' \<and> k' \<le> length h
              \<and> normalizeWs (slice h i' k') = nn \<longrightarrow> i < i' \<or> (i = i' \<and> k \<le> k'))"
        using ik(2-6) by simp
      then show ?thesis by blast
    qed
  qed
qed

lemma match_length:
  assumes "i \<le> k" "k \<le> length h" "normalizeWs (slice h i k) = nn"
  shows "i + length nn \<le> k"
proof -
  have "length nn \<le> length (slice h i k)"
    using normalizeWs_length [of "slice h i k"] assms(3) by simp
  also have "\<dots> = k - i" by (rule length_slice [OF assms(1,2)])
  finally show ?thesis using assms(1) by simp
qed

lemma normalizeWs_Nil: "normalizeWs [] = []"
  by (simp add: normalizeWs_def trim_def)

lemma scan_start_complete:
  assumes "h \<noteq> []" "sublist nn (normalizeWs h)"
    and "nn = [] \<or> (\<not> is_ws (hd nn) \<and> \<not> is_ws (last nn))"
  shows "scan_start h nn 0 \<noteq> None"
proof (cases "nn = []")
  case True
  have "0 \<le> (0::nat) \<and> 0 < length h \<and> 0 + length nn \<le> 0 \<and> 0 \<le> length h
        \<and> normalizeWs (slice h 0 0) = nn"
    using assms(1) True by (simp add: slice_def normalizeWs_Nil)
  then show ?thesis
    unfolding scan_start_None_iff by blast
next
  case False
  with assms(3) have "\<not> is_ws (hd nn)" "\<not> is_ws (last nn)" by auto
  from normalized_span [OF assms(2) False this] obtain p s q where
    s: "h = p @ s @ q" "normalizeWs s = nn" by blast
  have sne: "s \<noteq> []" using s(2) False by (auto simp: normalizeWs_Nil)
  have sl: "slice h (length p) (length p + length s) = s"
    unfolding s(1) by (rule slice_span)
  have "length nn \<le> length s"
    using normalizeWs_length [of s] s(2) by simp
  then have "0 \<le> length p \<and> length p < length h \<and> length p + length nn \<le> length p + length s
        \<and> length p + length s \<le> length h
        \<and> normalizeWs (slice h (length p) (length p + length s)) = nn"
    unfolding sl using sne s by simp
  then show ?thesis
    unfolding scan_start_None_iff by blast
qed

lemma findInContent_verbatim:
  "includes_str h n \<Longrightarrow> findInContent h n = Some n"
  by (simp add: findInContent_def)

lemma findInContent_absent:
  "\<not> includes_str h n \<Longrightarrow> \<not> includes_str (normalizeWs h) (normalizeWs n)
   \<Longrightarrow> findInContent h n = None"
  by (simp add: findInContent_def)

lemma findInContent_scan:
  "\<not> includes_str h n \<Longrightarrow> includes_str (normalizeWs h) (normalizeWs n)
   \<Longrightarrow> findInContent h n = scan_start h (normalizeWs n) 0"
  by (simp add: findInContent_def)

lemma normalized_needle_ends:
  "normalizeWs n = [] \<or> (\<not> is_ws (hd (normalizeWs n)) \<and> \<not> is_ws (last (normalizeWs n)))"
  using normalizeWs_nonws [of n] by blast

text \<open>What the scan returns when it is reached on a non-empty haystack.\<close>

lemma findInContent_fuzzy:
  assumes "\<not> includes_str h n" "includes_str (normalizeWs h) (normalizeWs n)" "h \<noteq> []"
  shows "\<exists>i j. i \<le> j \<and> j \<le> length h \<and> findInContent h n = Some (slice h i j)
           \<and> normalizeWs (slice h i j) = normalizeWs n
           \<and> (\<forall>i' j'. i' \<le> j' \<and> j' \<le> length h \<and> normalizeWs (slice h i' j') = normalizeWs n
                 \<longrightarrow> i < i' \<or> (i = i' \<and> j \<le> j'))"
proof -
  let ?nn = "normalizeWs n"
  have sub: "sublist ?nn (normalizeWs h)" using assms(2) by (simp add: includes_str_iff)
  have "scan_start h ?nn 0 \<noteq> None"
    by (rule scan_start_complete [OF assms(3) sub normalized_needle_ends])
  then obtain s where s: "scan_start h ?nn 0 = Some s" by auto
  from scan_start_Some [OF this] obtain i k where
    ik: "i < length h" "i + length ?nn \<le> k" "k \<le> length h" "s = slice h i k"
        "normalizeWs s = ?nn"
        "\<forall>i' k'. 0 \<le> i' \<and> i' < length h \<and> i' + length ?nn \<le> k' \<and> k' \<le> length h
              \<and> normalizeWs (slice h i' k') = ?nn \<longrightarrow> i < i' \<or> (i = i' \<and> k \<le> k')"
    by blast
  have f: "findInContent h n = Some (slice h i k)"
    using findInContent_scan [OF assms(1,2)] s ik(4) by simp
  have m: "\<forall>i' j'. i' \<le> j' \<and> j' \<le> length h \<and> normalizeWs (slice h i' j') = ?nn
                 \<longrightarrow> i < i' \<or> (i = i' \<and> k \<le> j')"
  proof (intro allI impI)
    fix i' j'
    assume a: "i' \<le> j' \<and> j' \<le> length h \<and> normalizeWs (slice h i' j') = ?nn"
    show "i < i' \<or> (i = i' \<and> k \<le> j')"
    proof (cases "i' < length h")
      case True
      have "i' + length ?nn \<le> j'"
        using match_length [of i' j' h ?nn] a by simp
      with True a ik(6) show ?thesis by blast
    next
      case False
      with ik(1) show ?thesis by simp
    qed
  qed
  have "i \<le> k" using ik(2) by simp
  with ik(3,4,5) f m have "i \<le> k \<and> k \<le> length h \<and> findInContent h n = Some (slice h i k)
           \<and> normalizeWs (slice h i k) = normalizeWs n
           \<and> (\<forall>i' j'. i' \<le> j' \<and> j' \<le> length h \<and> normalizeWs (slice h i' j') = normalizeWs n
                 \<longrightarrow> i < i' \<or> (i = i' \<and> k \<le> j'))"
    by simp
  then show ?thesis by blast
qed


text \<open>
  C2, as amended. Except when the haystack is empty and the needle is a non-empty string
  of whitespace only, \<open>findInContent\<close> returns \<open>null\<close> if and only if the normalised
  haystack does not contain the normalised needle; and whatever it returns is a span of
  the haystack whose normalisation equals the normalised needle.
\<close>

theorem findInContent_null_iff_no_normalized_occurrence:
  assumes "H \<noteq> [] \<or> N = [] \<or> normalizeWs N \<noteq> []"
  shows "(findInContent H N = None \<longleftrightarrow> \<not> includes_str (normalizeWs H) (normalizeWs N))
    \<and> (\<forall>s. findInContent H N = Some s \<longrightarrow>
          (\<exists>i j. i \<le> j \<and> j \<le> length H \<and> s = slice H i j) \<and> normalizeWs s = normalizeWs N)"
proof (cases "includes_str H N")
  case True
  then have "sublist N H" by (simp add: includes_str_iff)
  then have "includes_str (normalizeWs H) (normalizeWs N)"
    and "\<exists>i j. i \<le> j \<and> j \<le> length H \<and> N = slice H i j"
    by (simp_all add: includes_str_iff sublist_normalizeWs sublist_iff_slice [symmetric])
  then show ?thesis
    using findInContent_verbatim [OF True] by simp
next
  case v: False
  show ?thesis
  proof (cases "includes_str (normalizeWs H) (normalizeWs N)")
    case False
    then show ?thesis
      using findInContent_absent [OF v False] by simp
  next
    case True
    have "N \<noteq> []" using v by (auto simp: includes_str_iff)
    moreover have "H \<noteq> []" if "normalizeWs N \<noteq> []"
    proof
      assume "H = []"
      with True have "sublist (normalizeWs N) []"
        by (simp add: includes_str_iff normalizeWs_Nil)
      with that show False by simp
    qed
    ultimately have "H \<noteq> []" using assms by blast
    from findInContent_fuzzy [OF v True this] obtain i j where
      "i \<le> j" "j \<le> length H" "findInContent H N = Some (slice H i j)"
      "normalizeWs (slice H i j) = normalizeWs N" by blast
    then show ?thesis
      using True by auto
  qed
qed

theorem findInContent_null_iff_no_normalized_occurrence_witness:
  "''<p>a  b</p>'' \<noteq> []
   \<and> includes_str (normalizeWs ''<p>a  b</p>'') (normalizeWs ''a b'')
   \<and> findInContent ''<p>a  b</p>'' ''a b'' \<noteq> None"
proof -
  have h: "''<p>a  b</p>'' \<noteq> [] \<or> ''a b'' = [] \<or> normalizeWs ''a b'' \<noteq> []"
    by simp
  have i: "includes_str (normalizeWs ''<p>a  b</p>'') (normalizeWs ''a b'')"
    by code_simp
  note T = findInContent_null_iff_no_normalized_occurrence [OF h]
  have "findInContent ''<p>a  b</p>'' ''a b'' \<noteq> None"
    using conjunct1 [OF T] i by blast
  with i show ?thesis by simp
qed

theorem findInContent_null_iff_no_normalized_occurrence_counterexample:
  "findInContent [] '' '' = None \<and> includes_str (normalizeWs []) (normalizeWs '' '')"
proof -
  have 1: "findInContent [] '' '' = None" by code_simp
  have 2: "includes_str (normalizeWs []) (normalizeWs '' '')" by code_simp
  show ?thesis by (rule conjI [OF 1 2])
qed

text \<open>
  C3, as amended. For a non-empty haystack in which the needle does not occur verbatim
  but whose normalisation contains the normalised needle, \<open>findInContent\<close> returns the
  span \<open>H[i:j]\<close> whose normalisation equals the normalised needle with the earliest
  start offset \<open>i\<close> and, for that \<open>i\<close>, the smallest end offset \<open>j\<close>. For the haystack
  \<open><div>  Hello   World</div>\<close> and the needle \<open><div> Hello World</div>\<close> the span returned
  is the whole haystack.
\<close>

theorem findInContent_first_match_wins:
  "(\<not> includes_str H N \<and> includes_str (normalizeWs H) (normalizeWs N) \<and> H \<noteq> [] \<longrightarrow>
      (\<exists>i j. i \<le> j \<and> j \<le> length H \<and> findInContent H N = Some (slice H i j)
          \<and> normalizeWs (slice H i j) = normalizeWs N
          \<and> (\<forall>i' j'. i' \<le> j' \<and> j' \<le> length H
                 \<and> normalizeWs (slice H i' j') = normalizeWs N
               \<longrightarrow> i < i' \<or> (i = i' \<and> j \<le> j'))))
   \<and> findInContent ''<div>  Hello   World</div>'' ''<div> Hello World</div>''
       = Some ''<div>  Hello   World</div>''"
proof -
  have "findInContent ''<div>  Hello   World</div>'' ''<div> Hello World</div>''
       = Some ''<div>  Hello   World</div>''"
    by code_simp
  then show ?thesis
    using findInContent_fuzzy [of H N] by blast
qed

theorem findInContent_first_match_wins_witness:
  "\<not> includes_str ''<div>  Hello   World</div>'' ''<div> Hello World</div>''
   \<and> includes_str (normalizeWs ''<div>  Hello   World</div>'')
        (normalizeWs ''<div> Hello World</div>'')
   \<and> (\<exists>i j. i \<le> j \<and> j \<le> length ''<div>  Hello   World</div>''
         \<and> findInContent ''<div>  Hello   World</div>'' ''<div> Hello World</div>''
             = Some (slice ''<div>  Hello   World</div>'' i j)
         \<and> (\<forall>i' j'. i' \<le> j' \<and> j' \<le> length ''<div>  Hello   World</div>''
                 \<and> normalizeWs (slice ''<div>  Hello   World</div>'' i' j')
                     = normalizeWs ''<div> Hello World</div>''
               \<longrightarrow> i < i' \<or> (i = i' \<and> j \<le> j')))"
proof -
  let ?H = "''<div>  Hello   World</div>''"
  let ?N = "''<div> Hello World</div>''"
  have h1: "\<not> includes_str ?H ?N" by code_simp
  have h2: "includes_str (normalizeWs ?H) (normalizeWs ?N)" by code_simp
  have h3: "?H \<noteq> []" by simp
  note T = findInContent_first_match_wins [of ?H ?N]
  have "\<exists>i j. i \<le> j \<and> j \<le> length ?H \<and> findInContent ?H ?N = Some (slice ?H i j)
          \<and> normalizeWs (slice ?H i j) = normalizeWs ?N
          \<and> (\<forall>i' j'. i' \<le> j' \<and> j' \<le> length ?H
                 \<and> normalizeWs (slice ?H i' j') = normalizeWs ?N
               \<longrightarrow> i < i' \<or> (i = i' \<and> j \<le> j'))"
    by (rule mp [OF conjunct1 [OF T] conjI [OF h1 conjI [OF h2 h3]]])
  then have "\<exists>i j. i \<le> j \<and> j \<le> length ?H \<and> findInContent ?H ?N = Some (slice ?H i j)
          \<and> (\<forall>i' j'. i' \<le> j' \<and> j' \<le> length ?H
                 \<and> normalizeWs (slice ?H i' j') = normalizeWs ?N
               \<longrightarrow> i < i' \<or> (i = i' \<and> j \<le> j'))"
    by blast
  with h1 h2 show ?thesis by (intro conjI)
qed

theorem findInContent_first_match_wins_counterexample:
  "\<not> includes_str [] [CHR 0x09]
   \<and> includes_str (normalizeWs []) (normalizeWs [CHR 0x09])
   \<and> findInContent [] [CHR 0x09] = None"
proof -
  have 1: "\<not> includes_str [] [CHR 0x09]" by simp
  have 2: "includes_str (normalizeWs []) (normalizeWs [CHR 0x09])" by code_simp
  have 3: "findInContent [] [CHR 0x09] = None" by code_simp
  show ?thesis by (rule conjI [OF 1 conjI [OF 2 3]])
qed

end
